theory Spec2Isabelle
  imports Complex_Main
begin

section \<open>Python values\<close>

text \<open>
  A Python \<open>str\<close> is a sequence of Unicode code points; it is modelled as the list of
  their numbers. \<open>ustr\<close> turns an ASCII literal into such a list, so that the constants
  of \<^verbatim>\<open>app.py\<close> can be written down; a letter outside ASCII is spliced in by its
  code point (\<open>[233]\<close> is e-acute, \<open>[224]\<close> is a-grave).
\<close>

type_synonym pystr = "nat list"

definition ustr :: "string \<Rightarrow> pystr" where
  "ustr s = map of_char s"

text \<open>
  The values that can sit in the \<open>counts\<close> list or in a cell of the entry table.
  A finite float is the rational number it denotes; the three special floats are
  separate constructors.
\<close>

datatype pyval =
    PInt int
  | PBool bool
  | PFloat rat
  | PNaN
  | PInfinity
  | PNegInfinity
  | PStr pystr
  | PNone

datatype error = TypeError | ValueError | OverflowError

text \<open>
  Three builtins of the Python runtime are not defined here but taken as a
  parameter of every function that calls them: \<open>str.lower\<close> (Unicode lowercasing),
  \<open>int\<close> applied to a string (the parser of integer literals; \<open>None\<close> stands for the
  \<open>ValueError\<close>) and \<open>str\<close> applied to a value that is not a string.
\<close>

record builtins =
  str_lower :: "pystr \<Rightarrow> pystr"
  int_of_str :: "pystr \<Rightarrow> int option"
  str_of :: "pyval \<Rightarrow> pystr"

text \<open>\<open>str.strip()\<close>: drops the white space of both ends; the code points are those of
  CPython's \<open>Py_UNICODE_ISSPACE\<close>.\<close>

definition is_space :: "nat \<Rightarrow> bool" where
  "is_space c \<longleftrightarrow>
     (9 \<le> c \<and> c \<le> 13) \<or> (28 \<le> c \<and> c \<le> 32) \<or> c = 133 \<or> c = 160 \<or> c = 5760 \<or>
     (8192 \<le> c \<and> c \<le> 8202) \<or> c = 8232 \<or> c = 8233 \<or> c = 8239 \<or> c = 8287 \<or> c = 12288"

definition strip :: "pystr \<Rightarrow> pystr" where
  "strip s = rev (dropWhile is_space (rev (dropWhile is_space s)))"

text \<open>\<open>b in s\<close> for two strings: \<open>b\<close> occurs in \<open>s\<close> as a contiguous run.\<close>

fun starts_with :: "pystr \<Rightarrow> pystr \<Rightarrow> bool" where
  "starts_with [] s = True"
| "starts_with (b # bs) [] = False"
| "starts_with (b # bs) (c # cs) = (b = c \<and> starts_with bs cs)"

fun str_in :: "pystr \<Rightarrow> pystr \<Rightarrow> bool" where
  "str_in b [] = (b = [])"
| "str_in b (c # cs) = (starts_with b (c # cs) \<or> str_in b cs)"

text \<open>\<open>any(...)\<close> over a list.\<close>

fun any :: "('a \<Rightarrow> bool) \<Rightarrow> 'a list \<Rightarrow> bool" where
  "any p [] = False"
| "any p (x # xs) = (p x \<or> any p xs)"

section \<open>Guardrails\<close>

definition BANNED_PHRASES :: "pystr list" where
  "BANNED_PHRASES =
     [ustr ''fais le graphique'', ustr ''trace le graphique'', ustr ''tracer'',
      ustr ''donne le code'', ustr ''code complet'', ustr ''plot'', ustr ''matplotlib'',
      ustr ''ggplot'', ustr ''fais-le '' @ [224] @ ustr '' ma place'']"

definition REFUSAL :: pystr where
  "REFUSAL =
     ustr ''Je ne peux pas produire le diagramme ni fournir du code de trac'' @ [233] @
     ustr ''. Je peux t'aider '' @ [224] @ ustr '' le construire, '' @ [233] @
     ustr ''tape par '' @ [233] @ ustr ''tape.''"

definition guardrails :: "builtins \<Rightarrow> pystr \<Rightarrow> pystr option" where
  "guardrails rt text =
     (let lower = str_lower rt text
      in if any (\<lambda>b. str_in b lower) BANNED_PHRASES then Some REFUSAL else None)"

text \<open>
  An instance of the builtins for ASCII data, used to run the functions on concrete
  inputs. Lowercasing moves \<open>A\<close>..\<open>Z\<close> to \<open>a\<close>..\<open>z\<close>. The integer parser reads,
  between the white space of C (tab to carriage return, and the blank), an optional
  sign and decimal digits, where single underscores may separate digits (the limit
  that recent versions put on the number of digits is left aside). \<open>str\<close> writes an integer in decimal and \<open>None\<close>, a boolean or a special
  float by its Python name (the digits of a finite float are left out: the instance is
  not run on one).
\<close>

definition ascii_lower :: "pystr \<Rightarrow> pystr" where
  "ascii_lower s = map (\<lambda>c. if 65 \<le> c \<and> c \<le> 90 then c + 32 else c) s"

definition is_digit :: "nat \<Rightarrow> bool" where
  "is_digit c \<longleftrightarrow> 48 \<le> c \<and> c \<le> 57"

fun digits_value :: "int \<Rightarrow> pystr \<Rightarrow> int option" where
  "digits_value acc [] = Some acc"
| "digits_value acc [c] = (if is_digit c then Some (10 * acc + int (c - 48)) else None)"
| "digits_value acc (c # d # cs) =
     (if is_digit c then digits_value (10 * acc + int (c - 48)) (d # cs)
      else if c = 95 \<and> is_digit d then digits_value acc (d # cs)
      else None)"

definition is_c_space :: "nat \<Rightarrow> bool" where
  "is_c_space c \<longleftrightarrow> (9 \<le> c \<and> c \<le> 13) \<or> c = 32"

definition ascii_int :: "pystr \<Rightarrow> int option" where
  "ascii_int s =
     (case rev (dropWhile is_c_space (rev (dropWhile is_c_space s))) of
        [] \<Rightarrow> None
      | c # cs \<Rightarrow>
          (let body = (if c = 45 \<or> c = 43 then cs else c # cs)
           in case body of
                [] \<Rightarrow> None
              | d # ds \<Rightarrow>
                  if is_digit d
                  then (if c = 45 then map_option uminus (digits_value 0 body)
                        else digits_value 0 body)
                  else None))"

fun dec_digits :: "nat \<Rightarrow> pystr" where
  "dec_digits n = (if n < 10 then [48 + n] else dec_digits (n div 10) @ [48 + n mod 10])"

declare dec_digits.simps [simp del]

definition ascii_str :: "pyval \<Rightarrow> pystr" where
  "ascii_str v =
     (case v of
        PStr s \<Rightarrow> s
      | PNone \<Rightarrow> ustr ''None''
      | PBool b \<Rightarrow> (if b then ustr ''True'' else ustr ''False'')
      | PInt n \<Rightarrow> (if n < 0 then 45 # dec_digits (nat (- n)) else dec_digits (nat n))
      | PNaN \<Rightarrow> ustr ''nan''
      | PInfinity \<Rightarrow> ustr ''inf''
      | PNegInfinity \<Rightarrow> ustr ''-inf''
      | PFloat r \<Rightarrow> ustr ''?'')"

definition ascii_rt :: builtins where
  "ascii_rt = \<lparr> str_lower = ascii_lower, int_of_str = ascii_int, str_of = ascii_str \<rparr>"

section \<open>Numbers\<close>

text \<open>
  \<open>int(x)\<close>: an \<open>int\<close> is itself, a \<open>bool\<close> is 0 or 1, a finite float is cut towards
  zero, \<open>nan\<close> raises \<open>ValueError\<close>, an infinity raises \<open>OverflowError\<close>, \<open>None\<close>
  raises \<open>TypeError\<close>, and a string goes to the runtime's parser.
\<close>

definition trunc :: "rat \<Rightarrow> int" where
  "trunc r = (if r < 0 then - \<lfloor>- r\<rfloor> else \<lfloor>r\<rfloor>)"

fun py_int :: "builtins \<Rightarrow> pyval \<Rightarrow> error + int" where
  "py_int rt (PInt n) = Inr n"
| "py_int rt (PBool b) = Inr (if b then 1 else 0)"
| "py_int rt (PFloat r) = Inr (trunc r)"
| "py_int rt PNaN = Inl ValueError"
| "py_int rt PInfinity = Inl OverflowError"
| "py_int rt PNegInfinity = Inl OverflowError"
| "py_int rt (PStr s) = (case int_of_str rt s of None \<Rightarrow> Inl ValueError | Some n \<Rightarrow> Inr n)"
| "py_int rt PNone = Inl TypeError"

text \<open>\<open>[int(x) for x in counts]\<close>: the first element that raises ends the comprehension.\<close>

fun int_all :: "builtins \<Rightarrow> pyval list \<Rightarrow> error + int list" where
  "int_all rt [] = Inr []"
| "int_all rt (x # xs) =
     (case py_int rt x of
        Inl e \<Rightarrow> Inl e
      | Inr n \<Rightarrow> (case int_all rt xs of Inl e \<Rightarrow> Inl e | Inr ns \<Rightarrow> Inr (n # ns)))"

text \<open>
  \<open>round(x)\<close> of a float, with one argument: the nearest integer, a tie going to the
  even neighbour.
\<close>

definition py_round :: "rat \<Rightarrow> int" where
  "py_round q =
     (let f = \<lfloor>q\<rfloor>; d = q - of_int f
      in if d < 1 / 2 then f else if 1 / 2 < d then f + 1 else if even f then f else f + 1)"

text \<open>
  \<open>maxv / 8\<close> is the true division of two \<open>int\<close>s. CPython returns the double nearest
  to the exact quotient, ties to even, and raises \<open>OverflowError\<close> when that double
  would reach \<open>2^1024\<close>. Dividing by 8 only moves the exponent, so the quotient is
  \<open>maxv\<close> rounded to 53 significant bits (\<open>round53\<close>), divided by 8 exactly.
\<close>

fun bit_length :: "nat \<Rightarrow> nat" where
  "bit_length n = (if n = 0 then 0 else Suc (bit_length (n div 2)))"

declare bit_length.simps [simp del]

definition round53 :: "int \<Rightarrow> int" where
  "round53 n =
     (let l = bit_length (nat \<bar>n\<bar>)
      in if l \<le> 53 then n
         else sgn n * py_round (of_int \<bar>n\<bar> / 2 ^ (l - 53)) * 2 ^ (l - 53))"

definition truediv8 :: "int \<Rightarrow> error + rat" where
  "truediv8 n =
     (let q = of_int (round53 n) / 8
      in if 2 ^ 1024 \<le> \<bar>q\<bar> then Inl OverflowError else Inr q)"

section \<open>Data analysis\<close>

text \<open>The dictionary of statistics, one field for each of its four keys
  \<open>"total"\<close>, \<open>"max"\<close>, \<open>"suggested_step"\<close> and \<open>"rounded_top"\<close>.\<close>

record stats =
  s_total :: int
  s_max :: int
  s_suggested_step :: int
  s_rounded_top :: int

definition ISSUE_DUPLICATES :: pystr where
  "ISSUE_DUPLICATES =
     ustr ''Cat'' @ [233] @
     ustr ''gories en doublon ou variantes d'orthographe : harmonise la casse/accents.''"

definition ISSUE_NON_INTEGER :: pystr where
  "ISSUE_NON_INTEGER =
     ustr ''Effectifs non entiers : assure-toi que chaque effectif est un entier.''"

definition ISSUE_NEGATIVE :: pystr where
  "ISSUE_NEGATIVE =
     ustr ''Effectifs n'' @ [233] @ ustr ''gatifs d'' @ [233] @ ustr ''tect'' @ [233] @
     ustr ''s : v'' @ [233] @ ustr ''rifie la saisie.''"

definition ISSUE_ZERO_SUM :: pystr where
  "ISSUE_ZERO_SUM =
     ustr ''Somme nulle : v'' @ [233] @
     ustr ''rifie que les effectifs ne sont pas vides ou tous nuls.''"

text \<open>
  \<open>analyze_data\<close>, statement by statement. The result is \<open>Inl\<close> when an exception
  leaves the function; the only statement outside the \<open>try\<close> that can raise is the
  division \<open>maxv / 8\<close>.
\<close>

definition analyze_data ::
  "builtins \<Rightarrow> pystr list \<Rightarrow> pyval list \<Rightarrow> error + (pystr list \<times> stats)" where
  "analyze_data rt categories counts =
     (let issues = [];
          unique = map strip (filter (\<lambda>c. strip c \<noteq> []) categories);
          issues = (if card (set (map (str_lower rt) unique)) \<noteq> length unique
                    then issues @ [ISSUE_DUPLICATES] else issues);
          (issues, ints) = (case int_all rt counts of
                              Inr ns \<Rightarrow> (issues, ns)
                            | Inl e \<Rightarrow> (issues @ [ISSUE_NON_INTEGER], []));
          (issues, total, maxv) =
            (case ints of
               v # vs \<Rightarrow>
                 (let issues = (if any (\<lambda>v. v < 0) ints
                                then issues @ [ISSUE_NEGATIVE] else issues);
                      total = sum_list ints;
                      issues = (if total = 0 then issues @ [ISSUE_ZERO_SUM] else issues);
                      maxv = fold max vs v
                  in (issues, total, maxv))
             | [] \<Rightarrow> (issues, 0, 0))
      in case (if maxv \<noteq> 0
               then (case truediv8 maxv of
                       Inl e \<Rightarrow> Inl e
                     | Inr q \<Rightarrow> Inr (max 1 (py_round q)))
               else Inr 1) of
           Inl e \<Rightarrow> Inl e
         | Inr suggested_step \<Rightarrow>
             (let rounded_top = (if maxv \<noteq> 0
                                 then ((maxv div suggested_step) + 1) * suggested_step
                                 else 10)
              in Inr (issues, \<lparr> s_total = total, s_max = maxv,
                                s_suggested_step = suggested_step,
                                s_rounded_top = rounded_top \<rparr>)))"

section \<open>Session state and hints\<close>

text \<open>
  The dataclass \<open>SessionState\<close>. An optional string is an \<open>option\<close>, the dictionary
  \<open>scale_choice\<close> is a map, and \<open>checklist\<close>, whose values are enumerated, is the list
  of its items.
\<close>

record SessionState =
  step :: int
  hints_given :: int
  goal :: "pystr option"
  variable :: "pystr option"
  var_type :: "pystr option"
  categories :: "pystr list"
  counts :: "pyval list"
  scale_choice :: "pystr \<rightharpoonup> int"
  scale_justif :: "pystr option"
  checklist :: "(pystr \<times> bool) list"
  improvement :: "pystr option"
  reflection :: "pystr option"

definition new_SessionState :: SessionState where
  "new_SessionState =
     \<lparr> step = 1, hints_given = 0, goal = None, variable = None, var_type = None,
       categories = [], counts = [], scale_choice = Map.empty, scale_justif = None,
       checklist = [], improvement = None, reflection = None \<rparr>"

definition MAX_HINTS_PER_STEP :: int where
  "MAX_HINTS_PER_STEP = 1"

definition HINT_FALLBACK :: pystr where
  "HINT_FALLBACK =
     ustr ''Teste d'abord ta propre id'' @ [233] @
     ustr ''e, puis reviens avec ton choix justifi'' @ [233] @ ustr ''.''"

definition HINT_SCALE :: pystr where
  "HINT_SCALE =
     ustr ''Indice : vise ~8 '' @ [224] @ ustr '' 12 graduations r'' @ [233] @
     ustr ''guli'' @ [232] @ ustr ''res sur l'axe vertical. Choisis un pas qui d'' @ [233] @
     ustr ''passe l'' @ [233] @ ustr ''g'' @ [232] @
     ustr ''rement l'effectif max quand on multiplie par le nombre de graduations.''"

definition HINT_LABELS :: pystr where
  "HINT_LABELS =
     ustr ''Indice : un bon titre = [verbe d'action] + [variable] + [population] + [contexte/ann''
     @ [233] @ ustr ''e].''"

definition HINT_DATA :: pystr where
  "HINT_DATA =
     ustr ''Indice : liste d'abord les cat'' @ [233] @
     ustr ''gories uniques, puis additionne les effectifs de cat'' @ [233] @
     ustr ''gories homonymes (casse/accents).''"

definition HINT_DEFAULT :: pystr where
  "HINT_DEFAULT =
     ustr ''Indice : v'' @ [233] @ ustr ''rifie la coh'' @ [233] @
     ustr ''rence des totaux et l'uniformit'' @ [233] @ ustr '' des cat'' @ [233] @
     ustr ''gories.''"

text \<open>\<open>give_hint\<close> returns the text and the state it has mutated.\<close>

definition give_hint :: "SessionState \<Rightarrow> pystr \<Rightarrow> pystr \<times> SessionState" where
  "give_hint state topic =
     (if MAX_HINTS_PER_STEP \<le> hints_given state then (HINT_FALLBACK, state)
      else
        (let state = state\<lparr>hints_given := hints_given state + 1\<rparr>
         in if topic = ustr ''scale'' then (HINT_SCALE, state)
            else if topic = ustr ''labels'' then (HINT_LABELS, state)
            else if topic = ustr ''data'' then (HINT_DATA, state)
            else (HINT_DEFAULT, state)))"

definition reset_hints :: "SessionState \<Rightarrow> SessionState" where
  "reset_hints engine = engine\<lparr>hints_given := 0\<rparr>"

section \<open>The validate button\<close>

text \<open>
  Each of the steps 1 to 4 draws a button
  \<^verbatim>\<open>c2.button("Valider l'etape", on_click=reset_hints)\<close>. A click on it is handled by
  Streamlit in two moves: the \<open>on_click\<close> callback runs, then the script runs again and
  the call \<open>c2.button(...)\<close> of the current step returns \<open>True\<close>, so that its \<open>if\<close>
  body is executed. \<open>validate_click\<close> is that handling; \<open>engine\<close> is the session
  state as the script has filled it from the widgets when it reaches the button, and
  \<open>stats\<close> is the dictionary that \<open>analyze_data\<close> has returned to the script (steps 2
  and 3). Step 5 has no such button.
\<close>

definition falsy :: "pystr option \<Rightarrow> bool" where
  "falsy x = (case x of None \<Rightarrow> True | Some s \<Rightarrow> s = [])"

definition dict_get :: "('k \<rightharpoonup> 'v) \<Rightarrow> 'k \<Rightarrow> 'v \<Rightarrow> 'v" where
  "dict_get d k dflt = (case d k of None \<Rightarrow> dflt | Some v \<Rightarrow> v)"

definition validate_click :: "stats \<Rightarrow> SessionState \<Rightarrow> SessionState" where
  "validate_click stats engine0 =
     (let engine = reset_hints engine0
      in if step engine = 1 then
           (if falsy (goal engine) \<or> falsy (variable engine) then engine
            else engine\<lparr>step := 2\<rparr>)
         else if step engine = 2 then
           (if length (categories engine) < 2 \<or>
               length (categories engine) \<noteq> length (counts engine) then engine
            else engine\<lparr>step := 3\<rparr>)
         else if step engine = 3 then
           (if falsy (scale_justif engine) \<or>
               dict_get (scale_choice engine) (ustr ''top'') 0 \<le> s_max stats then engine
            else engine\<lparr>step := 4\<rparr>)
         else if step engine = 4 then
           (if \<not> any (\<lambda>b. b) (map snd (checklist engine)) then engine
            else engine\<lparr>step := 5\<rparr>)
         else engine0)"

section \<open>Step 2: reading the entry table\<close>

text \<open>
  A row of the table is a dictionary from column names to cell values.
  \<open>str(x)\<close> is \<open>x\<close> for a string and the runtime's text for any other value;
  \<open>v == 0\<close> holds for the integer, the float and the boolean that equal zero.
\<close>

type_synonym row = "pystr \<rightharpoonup> pyval"

definition COL_CATEGORIE :: pystr where
  "COL_CATEGORIE = ustr ''Cat'' @ [233] @ ustr ''gorie''"

definition COL_EFFECTIF :: pystr where
  "COL_EFFECTIF = ustr ''Effectif''"

definition py_str :: "builtins \<Rightarrow> pyval \<Rightarrow> pystr" where
  "py_str rt v = (case v of PStr s \<Rightarrow> s | _ \<Rightarrow> str_of rt v)"

fun eq_zero :: "pyval \<Rightarrow> bool" where
  "eq_zero (PInt n) = (n = 0)"
| "eq_zero (PBool b) = (\<not> b)"
| "eq_zero (PFloat r) = (r = 0)"
| "eq_zero _ = False"

fun extract_rows ::
  "builtins \<Rightarrow> row list \<Rightarrow> pystr list \<times> pyval list \<Rightarrow> pystr list \<times> pyval list" where
  "extract_rows rt [] (cats, cnts) = (cats, cnts)"
| "extract_rows rt (row # data) (cats, cnts) =
     (let c = strip (py_str rt (dict_get row COL_CATEGORIE (PStr [])));
          v = dict_get row COL_EFFECTIF (PInt 0)
      in if c = [] \<and> (eq_zero v \<or> v = PStr []) then extract_rows rt data (cats, cnts)
         else extract_rows rt data
                (cats @ [c],
                 cnts @ [case py_int rt v of Inr n \<Rightarrow> PInt n | Inl e \<Rightarrow> v]))"

definition read_table :: "builtins \<Rightarrow> row list \<Rightarrow> SessionState \<Rightarrow> SessionState" where
  "read_table rt data engine =
     (let (cats, cnts) = extract_rows rt data ([], [])
      in engine\<lparr>categories := cats, counts := cnts\<rparr>)"

section \<open>Step 5: the report\<close>

text \<open>
  An f-string field prints \<open>None\<close> for an absent optional string, and \<open>str\<close> of any
  other value. The report is built as the script does it: a list of lines that the
  two loops extend, joined by the newline (code point 10). In the literals \<open>[39]\<close>
  is an apostrophe that ends a piece.
\<close>

definition fmt_opt :: "pystr option \<Rightarrow> pystr" where
  "fmt_opt x = (case x of None \<Rightarrow> ustr ''None'' | Some s \<Rightarrow> s)"

definition fmt_scale :: "builtins \<Rightarrow> (pystr \<rightharpoonup> int) \<Rightarrow> pystr \<Rightarrow> pystr" where
  "fmt_scale rt d k = (case d k of None \<Rightarrow> [] | Some n \<Rightarrow> py_str rt (PInt n))"

fun str_join :: "pystr \<Rightarrow> pystr list \<Rightarrow> pystr" where
  "str_join sep [] = []"
| "str_join sep [l] = l"
| "str_join sep (l # m # ls) = l @ sep @ str_join sep (m # ls)"

definition REPORT_TITLE :: pystr where
  "REPORT_TITLE =
     ustr ''# Rapport d'auto-contr'' @ [244] @ ustr ''le '' @ [8212] @
     ustr '' Diagramme en barres''"

definition REPORT_REMINDER :: pystr where
  "REPORT_REMINDER =
     ustr ''(Rappel : le graphique doit '' @ [234] @ ustr ''tre trac'' @ [233] @
     ustr '' par l'' @ [39, 233] @ ustr ''l'' @ [232] @
     ustr ''ve dans l'outil de son choix.)''"

definition CHECKLIST_LABELS :: "(pystr \<times> pystr) list" where
  "CHECKLIST_LABELS =
     [(ustr ''title'', ustr ''Titre''), (ustr ''x'', ustr ''Axe X''),
      (ustr ''y'', ustr ''Axe Y''), (ustr ''bars'', ustr ''Barres''),
      (ustr ''scale'', [201] @ ustr ''chelle''), (ustr ''source'', ustr ''Source''),
      (ustr ''legend'', ustr ''L'' @ [233] @ ustr ''gende'')]"

definition pair_line :: "builtins \<Rightarrow> pystr \<times> pyval \<Rightarrow> pystr" where
  "pair_line rt cv = (case cv of (c, v) \<Rightarrow> ustr ''- '' @ c @ ustr '' : '' @ py_str rt v)"

definition checklist_line :: "SessionState \<Rightarrow> pystr \<times> pystr \<Rightarrow> pystr" where
  "checklist_line engine kl =
     (case kl of (key, label) \<Rightarrow>
        ustr ''- '' @ label @ ustr '' : '' @
        (if map_of (checklist engine) key = Some True then ustr ''OK''
         else [192] @ ustr '' revoir''))"

definition report_lines :: "builtins \<Rightarrow> SessionState \<Rightarrow> pystr list" where
  "report_lines rt engine =
     (let report_lines =
            [REPORT_TITLE,
             [],
             ustr ''Question d'' @ [39, 233] @ ustr ''tude : '' @ fmt_opt (goal engine),
             ustr ''Variable : '' @ fmt_opt (variable engine) @ ustr ''  '' @ [183] @
               ustr ''  Nature : '' @ fmt_opt (var_type engine),
             [],
             ustr ''Cat'' @ [233] @ ustr ''gories et effectifs :''];
          report_lines =
            fold (\<lambda>cv ls. ls @ [pair_line rt cv])
              (zip (categories engine) (counts engine)) report_lines;
          report_lines = report_lines @
            [[],
             [201] @ ustr ''chelle choisie : pas = '' @
               fmt_scale rt (scale_choice engine) (ustr ''step'') @ ustr '', sommet = '' @
               fmt_scale rt (scale_choice engine) (ustr ''top''),
             ustr ''Justification : '' @ fmt_opt (scale_justif engine),
             [],
             ustr ''Checklist :''];
          report_lines =
            fold (\<lambda>kl ls. ls @ [checklist_line engine kl]) CHECKLIST_LABELS report_lines;
          report_lines = report_lines @
            [[],
             ustr ''Am'' @ [233] @ ustr ''lioration prioritaire : '' @
               fmt_opt (improvement engine),
             [],
             ustr ''R'' @ [233] @ ustr ''flexion finale : '' @ fmt_opt (reflection engine),
             [],
             REPORT_REMINDER]
      in report_lines)"

definition report :: "builtins \<Rightarrow> SessionState \<Rightarrow> pystr" where
  "report rt engine = str_join [10] (report_lines rt engine)"

section \<open>Properties of the guardrail\<close>

lemma starts_with_iff: "starts_with b s \<longleftrightarrow> (\<exists>v. s = b @ v)"
  by (induction b s rule: starts_with.induct) auto

lemma str_in_iff: "str_in b s \<longleftrightarrow> (\<exists>u v. s = u @ b @ v)"
proof (induction s)
  case Nil
  then show ?case by auto
next
  case (Cons c cs)
  show ?case
  proof
    assume "str_in b (c # cs)"
    then consider "starts_with b (c # cs)" | "str_in b cs" by auto
    then show "\<exists>u v. c # cs = u @ b @ v"
    proof cases
      case 1
      then obtain v where "c # cs = b @ v" by (auto simp: starts_with_iff)
      then have "c # cs = [] @ b @ v" by simp
      then show ?thesis by blast
    next
      case 2
      then obtain u v where "cs = u @ b @ v" using Cons.IH by auto
      then have "c # cs = (c # u) @ b @ v" by simp
      then show ?thesis by blast
    qed
  next
    assume "\<exists>u v. c # cs = u @ b @ v"
    then obtain u v where uv: "c # cs = u @ b @ v" by blast
    show "str_in b (c # cs)"
    proof (cases u)
      case Nil
      with uv have "starts_with b (c # cs)" by (auto simp: starts_with_iff)
      then show ?thesis by simp
    next
      case (Cons a u')
      with uv have "cs = u' @ b @ v" by simp
      then have "str_in b cs" using Cons.IH by blast
      then show ?thesis by simp
    qed
  qed
qed

lemma any_iff: "any p xs \<longleftrightarrow> (\<exists>x \<in> set xs. p x)"
  by (induction xs) auto

text \<open>
  Claim C7. For every text, \<open>guardrails\<close> returns the fixed refusal exactly when the
  lowercased text contains one of the banned phrases as a substring, and \<open>None\<close>
  otherwise; it is a function of its argument alone. A runtime whose \<open>lower\<close> leaves
  the two lowercase ASCII sentences of the specification as they are refuses
  "please plot this for me" and lets "what counts as a good title?" pass.
\<close>

theorem guardrails_refusal_iff:
  "guardrails rt txt =
     (if \<exists>b \<in> set BANNED_PHRASES. \<exists>u v. str_lower rt txt = u @ b @ v
      then Some REFUSAL else None)
   \<and> (str_lower rt (ustr ''please plot this for me'') = ustr ''please plot this for me''
        \<longrightarrow> guardrails rt (ustr ''please plot this for me'') = Some REFUSAL)
   \<and> (str_lower rt (ustr ''what counts as a good title?'') = ustr ''what counts as a good title?''
        \<longrightarrow> guardrails rt (ustr ''what counts as a good title?'') = None)"
proof (intro conjI impI)
  show "guardrails rt txt =
     (if \<exists>b \<in> set BANNED_PHRASES. \<exists>u v. str_lower rt txt = u @ b @ v
      then Some REFUSAL else None)"
    by (simp add: guardrails_def any_iff str_in_iff)
next
  assume "str_lower rt (ustr ''please plot this for me'') = ustr ''please plot this for me''"
  then show "guardrails rt (ustr ''please plot this for me'') = Some REFUSAL"
    by (simp add: guardrails_def BANNED_PHRASES_def ustr_def)
next
  assume "str_lower rt (ustr ''what counts as a good title?'') = ustr ''what counts as a good title?''"
  then show "guardrails rt (ustr ''what counts as a good title?'') = None"
    by (simp add: guardrails_def BANNED_PHRASES_def ustr_def)
qed

theorem guardrails_refusal_iff_witness:
  "guardrails ascii_rt (ustr ''please plot this for me'') = Some REFUSAL
   \<and> guardrails ascii_rt (ustr ''what counts as a good title?'') = None"
proof -
  have h1: "str_lower ascii_rt (ustr ''please plot this for me'') = ustr ''please plot this for me''"
    by (simp add: ascii_rt_def ascii_lower_def ustr_def)
  have h2: "str_lower ascii_rt (ustr ''what counts as a good title?'') = ustr ''what counts as a good title?''"
    by (simp add: ascii_rt_def ascii_lower_def ustr_def)
  from guardrails_refusal_iff [of ascii_rt "[]"] h1 h2 show ?thesis by blast
qed

section \<open>Properties of the hints\<close>

lemma give_hint_capped: "hints_given s = 1 \<Longrightarrow> give_hint s t = (HINT_FALLBACK, s)"
  by (simp add: give_hint_def MAX_HINTS_PER_STEP_def)

lemma give_hint_first:
  "hints_given s = 0 \<Longrightarrow>
   give_hint s t =
     (if t = ustr ''scale'' then HINT_SCALE
      else if t = ustr ''labels'' then HINT_LABELS
      else if t = ustr ''data'' then HINT_DATA else HINT_DEFAULT,
      s\<lparr>hints_given := 1\<rparr>)"
  by (simp add: give_hint_def MAX_HINTS_PER_STEP_def Let_def)

lemma topic_hints_not_fallback:
  "HINT_SCALE \<noteq> HINT_FALLBACK" "HINT_LABELS \<noteq> HINT_FALLBACK"
  "HINT_DATA \<noteq> HINT_FALLBACK" "HINT_DEFAULT \<noteq> HINT_FALLBACK"
  by (simp_all add: HINT_SCALE_def HINT_LABELS_def HINT_DATA_def HINT_DEFAULT_def
        HINT_FALLBACK_def ustr_def)

lemma topics_distinct:
  "ustr ''labels'' \<noteq> ustr ''scale''" "ustr ''data'' \<noteq> ustr ''scale''"
  "ustr ''data'' \<noteq> ustr ''labels''"
  by (simp_all add: ustr_def)

lemma hints_le_one_step:
  "0 \<le> hints_given s \<Longrightarrow> hints_given s \<le> 1 \<Longrightarrow>
   0 \<le> hints_given (snd (give_hint s t)) \<and> hints_given (snd (give_hint s t)) \<le> 1"
  by (auto simp: give_hint_def MAX_HINTS_PER_STEP_def Let_def)

lemma hints_le_one_fold:
  "0 \<le> hints_given s \<Longrightarrow> hints_given s \<le> 1 \<Longrightarrow>
   0 \<le> hints_given (fold (\<lambda>t st. snd (give_hint st t)) ts s) \<and>
   hints_given (fold (\<lambda>t st. snd (give_hint st t)) ts s) \<le> 1"
proof (induction ts arbitrary: s)
  case Nil
  then show ?case by simp
next
  case (Cons t ts)
  from hints_le_one_step [OF Cons.prems]
  have "0 \<le> hints_given (snd (give_hint s t))" "hints_given (snd (give_hint s t)) \<le> 1"
    by simp_all
  from Cons.IH [OF this] show ?case by simp
qed

text \<open>
  Claim C6. From a state whose counter is 0, \<open>give_hint\<close> called twice returns the hint
  of its topic the first time and the generic message the second time; the first call
  sets \<open>hints_given\<close> to 1, the second leaves the state as it is, and however many
  calls follow one another the counter does not exceed 1.
\<close>

theorem give_hint_twice:
  assumes "hints_given s = 0"
  shows "(\<exists>h1 s1 h2.
            give_hint s t1 = (h1, s1) \<and> give_hint s1 t2 = (h2, s1) \<and>
            (t1 = ustr ''scale'' \<longrightarrow> h1 = HINT_SCALE) \<and>
            (t1 = ustr ''labels'' \<longrightarrow> h1 = HINT_LABELS) \<and>
            (t1 = ustr ''data'' \<longrightarrow> h1 = HINT_DATA) \<and>
            (t1 \<noteq> ustr ''scale'' \<and> t1 \<noteq> ustr ''labels'' \<and> t1 \<noteq> ustr ''data''
               \<longrightarrow> h1 = HINT_DEFAULT) \<and>
            h1 \<noteq> HINT_FALLBACK \<and> hints_given s1 = 1 \<and> h2 = HINT_FALLBACK)
         \<and> hints_given (fold (\<lambda>t st. snd (give_hint st t)) ts s) \<le> 1"
proof
  let ?h1 = "if t1 = ustr ''scale'' then HINT_SCALE
      else if t1 = ustr ''labels'' then HINT_LABELS
      else if t1 = ustr ''data'' then HINT_DATA else HINT_DEFAULT"
  let ?s1 = "s\<lparr>hints_given := 1\<rparr>"
  have a: "give_hint s t1 = (?h1, ?s1)" using assms by (rule give_hint_first)
  have b: "give_hint ?s1 t2 = (HINT_FALLBACK, ?s1)" by (rule give_hint_capped) simp
  have c: "?h1 \<noteq> HINT_FALLBACK" by (simp add: topic_hints_not_fallback)
  have d: "(t1 = ustr ''scale'' \<longrightarrow> ?h1 = HINT_SCALE) \<and>
           (t1 = ustr ''labels'' \<longrightarrow> ?h1 = HINT_LABELS) \<and>
           (t1 = ustr ''data'' \<longrightarrow> ?h1 = HINT_DATA) \<and>
           (t1 \<noteq> ustr ''scale'' \<and> t1 \<noteq> ustr ''labels'' \<and> t1 \<noteq> ustr ''data''
              \<longrightarrow> ?h1 = HINT_DEFAULT)"
    by (simp add: topics_distinct)
  show "\<exists>h1 s1 h2.
           give_hint s t1 = (h1, s1) \<and> give_hint s1 t2 = (h2, s1) \<and>
           (t1 = ustr ''scale'' \<longrightarrow> h1 = HINT_SCALE) \<and>
           (t1 = ustr ''labels'' \<longrightarrow> h1 = HINT_LABELS) \<and>
           (t1 = ustr ''data'' \<longrightarrow> h1 = HINT_DATA) \<and>
           (t1 \<noteq> ustr ''scale'' \<and> t1 \<noteq> ustr ''labels'' \<and> t1 \<noteq> ustr ''data''
              \<longrightarrow> h1 = HINT_DEFAULT) \<and>
           h1 \<noteq> HINT_FALLBACK \<and> hints_given s1 = 1 \<and> h2 = HINT_FALLBACK"
    using a b c d by (intro exI [of _ ?h1] exI [of _ ?s1] exI [of _ HINT_FALLBACK]) simp
  show "hints_given (fold (\<lambda>t st. snd (give_hint st t)) ts s) \<le> 1"
    using hints_le_one_fold [of s ts] assms by simp
qed

theorem give_hint_twice_witness:
  "give_hint new_SessionState (ustr ''data'') = (HINT_DATA, new_SessionState\<lparr>hints_given := 1\<rparr>)
   \<and> give_hint (new_SessionState\<lparr>hints_given := 1\<rparr>) (ustr ''scale'')
       = (HINT_FALLBACK, new_SessionState\<lparr>hints_given := 1\<rparr>)
   \<and> hints_given (fold (\<lambda>t st. snd (give_hint st t)) [ustr ''data'', ustr ''scale'', ustr ''data'']
        new_SessionState) \<le> 1"
proof -
  have h: "hints_given new_SessionState = 0" by (simp add: new_SessionState_def)
  from give_hint_twice [OF h, of "ustr ''data''" "ustr ''scale''"
      "[ustr ''data'', ustr ''scale'', ustr ''data'']"]
  obtain h1 s1 h2 where
    g1: "give_hint new_SessionState (ustr ''data'') = (h1, s1)" and
    g2: "give_hint s1 (ustr ''scale'') = (h2, s1)" and
    hd: "h1 = HINT_DATA" and fb: "h2 = HINT_FALLBACK" and
    le: "hints_given (fold (\<lambda>t st. snd (give_hint st t)) [ustr ''data'', ustr ''scale'', ustr ''data'']
        new_SessionState) \<le> 1"
    by blast
  have s1: "s1 = new_SessionState\<lparr>hints_given := 1\<rparr>"
    using g1 h by (simp add: give_hint_def MAX_HINTS_PER_STEP_def Let_def split: if_splits)
  from g1 g2 hd fb s1 le show ?thesis by blast
qed

section \<open>Properties of the validate button and of the entry table\<close>

text \<open>
  Claim C3. A click on the validate button moves \<open>step\<close> from \<open>n\<close> to \<open>n + 1\<close> exactly
  when the guard of step \<open>n\<close> holds, and leaves it at \<open>n\<close> otherwise. Step 2: at least
  two categories, and as many counts as categories. Step 3: a justification that is
  not empty, and a chosen top above the maximum of the statistics. Steps 1 and 4 are
  stated with their guards as well.
\<close>

theorem validate_click_advances_iff_guard:
  "(step s = 1 \<longrightarrow>
      step (validate_click st s) =
        (if (\<exists>g. goal s = Some g \<and> g \<noteq> []) \<and> (\<exists>v. variable s = Some v \<and> v \<noteq> [])
         then 2 else 1))
   \<and> (step s = 2 \<longrightarrow>
      step (validate_click st s) =
        (if 2 \<le> length (categories s) \<and> length (categories s) = length (counts s)
         then 3 else 2))
   \<and> (step s = 3 \<longrightarrow>
      step (validate_click st s) =
        (if (\<exists>j. scale_justif s = Some j \<and> j \<noteq> []) \<and>
            s_max st < (case scale_choice s (ustr ''top'') of None \<Rightarrow> 0 | Some t \<Rightarrow> t)
         then 4 else 3))
   \<and> (step s = 4 \<longrightarrow>
      step (validate_click st s) =
        (if \<exists>kb \<in> set (checklist s). snd kb then 5 else 4))"
proof (intro conjI impI)
  assume "step s = 1"
  then show "step (validate_click st s) =
        (if (\<exists>g. goal s = Some g \<and> g \<noteq> []) \<and> (\<exists>v. variable s = Some v \<and> v \<noteq> [])
         then 2 else 1)"
    by (cases "goal s"; cases "variable s")
       (simp_all add: validate_click_def reset_hints_def Let_def falsy_def)
next
  assume "step s = 2"
  then show "step (validate_click st s) =
        (if 2 \<le> length (categories s) \<and> length (categories s) = length (counts s)
         then 3 else 2)"
    by (simp add: validate_click_def reset_hints_def Let_def not_less)
next
  assume "step s = 3"
  then show "step (validate_click st s) =
        (if (\<exists>j. scale_justif s = Some j \<and> j \<noteq> []) \<and>
            s_max st < (case scale_choice s (ustr ''top'') of None \<Rightarrow> 0 | Some t \<Rightarrow> t)
         then 4 else 3)"
    by (cases "scale_justif s")
       (simp_all add: validate_click_def reset_hints_def Let_def dict_get_def falsy_def not_le)
next
  assume "step s = 4"
  then show "step (validate_click st s) =
        (if \<exists>kb \<in> set (checklist s). snd kb then 5 else 4)"
    by (simp add: validate_click_def reset_hints_def Let_def any_iff)
qed

theorem validate_click_advances_iff_guard_witness:
  "step (validate_click \<lparr>s_total = 5, s_max = 3, s_suggested_step = 1, s_rounded_top = 4\<rparr>
      (new_SessionState\<lparr>goal := Some (ustr ''Q''), variable := Some []\<rparr>)) = 1
   \<and> step (validate_click \<lparr>s_total = 5, s_max = 3, s_suggested_step = 1, s_rounded_top = 4\<rparr>
      (new_SessionState\<lparr>step := 2, categories := [ustr ''A'', ustr ''B''],
         counts := [PInt 2, PInt 3]\<rparr>)) = 3
   \<and> step (validate_click \<lparr>s_total = 5, s_max = 3, s_suggested_step = 1, s_rounded_top = 4\<rparr>
      (new_SessionState\<lparr>step := 3, categories := [ustr ''A'', ustr ''B''],
         counts := [PInt 2, PInt 3], scale_choice := [ustr ''step'' \<mapsto> 1, ustr ''top'' \<mapsto> 3],
         scale_justif := Some (ustr ''ok'')\<rparr>)) = 3
   \<and> step (validate_click \<lparr>s_total = 5, s_max = 3, s_suggested_step = 1, s_rounded_top = 4\<rparr>
      (new_SessionState\<lparr>step := 4,
         checklist := [(ustr ''title'', False), (ustr ''x'', True)]\<rparr>)) = 5"
proof -
  let ?st = "\<lparr>s_total = 5, s_max = 3, s_suggested_step = 1, s_rounded_top = 4\<rparr>"
  let ?s1 = "new_SessionState\<lparr>goal := Some (ustr ''Q''), variable := Some []\<rparr>"
  let ?s2 = "new_SessionState\<lparr>step := 2, categories := [ustr ''A'', ustr ''B''],
         counts := [PInt 2, PInt 3]\<rparr>"
  let ?s3 = "new_SessionState\<lparr>step := 3, categories := [ustr ''A'', ustr ''B''],
         counts := [PInt 2, PInt 3], scale_choice := [ustr ''step'' \<mapsto> 1, ustr ''top'' \<mapsto> 3],
         scale_justif := Some (ustr ''ok'')\<rparr>"
  let ?s4 = "new_SessionState\<lparr>step := 4,
         checklist := [(ustr ''title'', False), (ustr ''x'', True)]\<rparr>"
  have a: "step ?s1 = 1" by (simp add: new_SessionState_def)
  have b: "step ?s2 = 2" by simp
  have c: "step ?s3 = 3" by simp
  have d: "step ?s4 = 4" by simp
  from validate_click_advances_iff_guard [of ?s1 ?st] a
  have "step (validate_click ?st ?s1) = 1" by simp
  moreover from validate_click_advances_iff_guard [of ?s2 ?st] b
  have "step (validate_click ?st ?s2) = 3" by simp
  moreover from validate_click_advances_iff_guard [of ?s3 ?st] c
  have "step (validate_click ?st ?s3) = 3" by (simp add: ustr_def)
  moreover from validate_click_advances_iff_guard [of ?s4 ?st] d
  have "step (validate_click ?st ?s4) = 5" by simp
  ultimately show ?thesis by blast
qed

text \<open>
  Claim C4, run on the code. The claim says that a validation whose guard fails leaves
  the session state unchanged and the hint counter untouched. In step 2, with no
  category entered and the one hint of the step already given, a click on the
  validate button keeps the step and sets \<open>hints_given\<close> back to 0, since the
  \<open>on_click\<close> callback runs at every click; the next request for a hint is then
  served a second topic hint within the same step.
\<close>

theorem failed_validation_resets_hints:
  "validate_click \<lparr>s_total = 0, s_max = 0, s_suggested_step = 1, s_rounded_top = 10\<rparr>
      (new_SessionState\<lparr>step := 2, hints_given := 1\<rparr>)
     = new_SessionState\<lparr>step := 2, hints_given := 0\<rparr>
   \<and> fst (give_hint (new_SessionState\<lparr>step := 2, hints_given := 1\<rparr>) (ustr ''data''))
       = HINT_FALLBACK
   \<and> fst (give_hint
        (validate_click \<lparr>s_total = 0, s_max = 0, s_suggested_step = 1, s_rounded_top = 10\<rparr>
           (new_SessionState\<lparr>step := 2, hints_given := 1\<rparr>))
        (ustr ''data'')) = HINT_DATA"
  by (simp add: validate_click_def reset_hints_def new_SessionState_def give_hint_def
      MAX_HINTS_PER_STEP_def ustr_def)

lemma extract_rows_lengths:
  "extract_rows rt data acc = (cats, cnts) \<Longrightarrow> length (fst acc) = length (snd acc) \<Longrightarrow>
   length cats = length cnts"
proof (induction rt data acc arbitrary: cats cnts rule: extract_rows.induct)
  case (1 rt cs ns)
  then show ?case by simp
next
  case (2 rt row data cs ns)
  then show ?case by (simp add: Let_def split: if_splits)
qed

text \<open>
  Claim C9. Whatever the entry table holds, the loop over its rows appends a category
  and a count together, so the two lists it stores have the same length; in step 2
  the validation then fails exactly when there are fewer than two categories, and
  never for the lengths.
\<close>

theorem read_table_lengths_agree:
  "length (categories (read_table rt data engine)) = length (counts (read_table rt data engine))
   \<and> (step engine = 2 \<longrightarrow>
        (step (validate_click st (read_table rt data engine)) = 2
           \<longleftrightarrow> length (categories (read_table rt data engine)) < 2)
        \<and> (step (validate_click st (read_table rt data engine)) = 3
           \<longleftrightarrow> 2 \<le> length (categories (read_table rt data engine))))"
proof -
  obtain cats cnts where e: "extract_rows rt data ([], []) = (cats, cnts)"
    by (cases "extract_rows rt data ([], [])")
  then have l: "length cats = length cnts" by (rule extract_rows_lengths) simp
  have r: "read_table rt data engine = engine\<lparr>categories := cats, counts := cnts\<rparr>"
    by (simp add: read_table_def e)
  show ?thesis
    by (auto simp: r l validate_click_def reset_hints_def Let_def)
qed

theorem read_table_lengths_agree_witness:
  "categories (read_table ascii_rt
      [[COL_CATEGORIE \<mapsto> PStr (ustr '' A ''), COL_EFFECTIF \<mapsto> PStr (ustr ''x'')],
       [COL_CATEGORIE \<mapsto> PNone, COL_EFFECTIF \<mapsto> PFloat (5 / 2)],
       [COL_CATEGORIE \<mapsto> PStr (ustr ''  ''), COL_EFFECTIF \<mapsto> PInt 0],
       Map.empty]
      (new_SessionState\<lparr>step := 2\<rparr>)) = [ustr ''A'', ustr ''None'']
   \<and> counts (read_table ascii_rt
      [[COL_CATEGORIE \<mapsto> PStr (ustr '' A ''), COL_EFFECTIF \<mapsto> PStr (ustr ''x'')],
       [COL_CATEGORIE \<mapsto> PNone, COL_EFFECTIF \<mapsto> PFloat (5 / 2)],
       [COL_CATEGORIE \<mapsto> PStr (ustr ''  ''), COL_EFFECTIF \<mapsto> PInt 0],
       Map.empty]
      (new_SessionState\<lparr>step := 2\<rparr>)) = [PStr (ustr ''x''), PInt 2]
   \<and> step (validate_click \<lparr>s_total = 0, s_max = 0, s_suggested_step = 1, s_rounded_top = 10\<rparr>
       (read_table ascii_rt
      [[COL_CATEGORIE \<mapsto> PStr (ustr '' A ''), COL_EFFECTIF \<mapsto> PStr (ustr ''x'')],
       [COL_CATEGORIE \<mapsto> PNone, COL_EFFECTIF \<mapsto> PFloat (5 / 2)],
       [COL_CATEGORIE \<mapsto> PStr (ustr ''  ''), COL_EFFECTIF \<mapsto> PInt 0],
       Map.empty]
      (new_SessionState\<lparr>step := 2\<rparr>))) = 3"
proof -
  let ?data = "[[COL_CATEGORIE \<mapsto> PStr (ustr '' A ''), COL_EFFECTIF \<mapsto> PStr (ustr ''x'')],
       [COL_CATEGORIE \<mapsto> PNone, COL_EFFECTIF \<mapsto> PFloat (5 / 2)],
       [COL_CATEGORIE \<mapsto> PStr (ustr ''  ''), COL_EFFECTIF \<mapsto> PInt 0],
       Map.empty]"
  let ?e = "new_SessionState\<lparr>step := 2\<rparr>"
  let ?st = "\<lparr>s_total = 0, s_max = 0, s_suggested_step = 1, s_rounded_top = 10\<rparr>"
  have ne: "COL_CATEGORIE \<noteq> COL_EFFECTIF" by (simp add: COL_CATEGORIE_def COL_EFFECTIF_def ustr_def)
  have x: "extract_rows ascii_rt ?data ([], []) = ([ustr ''A'', ustr ''None''], [PStr (ustr ''x''), PInt 2])"
    using ne
    by (simp add: dict_get_def py_str_def strip_def is_space_def ascii_rt_def ascii_str_def
        ascii_int_def is_c_space_def is_digit_def trunc_def floor_eq_iff ustr_def)
  have c: "categories (read_table ascii_rt ?data ?e) = [ustr ''A'', ustr ''None'']"
    and n: "counts (read_table ascii_rt ?data ?e) = [PStr (ustr ''x''), PInt 2]"
    unfolding read_table_def x by simp_all
  have s: "step ?e = 2" by simp
  from read_table_lengths_agree [of ascii_rt ?data ?e ?st] s c
  have "step (validate_click ?st (read_table ascii_rt ?data ?e)) = 3" by simp
  with c n show ?thesis by blast
qed

section \<open>Properties of the report\<close>

lemma fold_append_line: "fold (\<lambda>x ls. ls @ [f x]) xs init = init @ map f xs"
  by (induction xs arbitrary: init) simp_all

lemma report_lines_closed:
  "report_lines rt s =
     [REPORT_TITLE,
      [],
      ustr ''Question d'' @ [39, 233] @ ustr ''tude : '' @ fmt_opt (goal s),
      ustr ''Variable : '' @ fmt_opt (variable s) @ ustr ''  '' @ [183] @
        ustr ''  Nature : '' @ fmt_opt (var_type s),
      [],
      ustr ''Cat'' @ [233] @ ustr ''gories et effectifs :'']
     @ map (pair_line rt) (zip (categories s) (counts s))
     @ [[],
        [201] @ ustr ''chelle choisie : pas = '' @
          fmt_scale rt (scale_choice s) (ustr ''step'') @ ustr '', sommet = '' @
          fmt_scale rt (scale_choice s) (ustr ''top''),
        ustr ''Justification : '' @ fmt_opt (scale_justif s),
        [],
        ustr ''Checklist :'']
     @ map (checklist_line s) CHECKLIST_LABELS
     @ [[],
        ustr ''Am'' @ [233] @ ustr ''lioration prioritaire : '' @ fmt_opt (improvement s),
        [],
        ustr ''R'' @ [233] @ ustr ''flexion finale : '' @ fmt_opt (reflection s),
        [],
        REPORT_REMINDER]"
  unfolding report_lines_def Let_def fold_append_line by simp

lemma str_join_Cons: "str_join sep (l # ls) = l @ concat (map (\<lambda>m. sep @ m) ls)"
  by (induction ls arbitrary: l) simp_all

lemma str_join_contains: "l \<in> set ls \<Longrightarrow> \<exists>u v. str_join sep ls = u @ l @ v"
proof -
  assume "l \<in> set ls"
  then obtain xs ys where ls: "ls = xs @ l # ys" by (auto simp: in_set_conv_decomp)
  show ?thesis
  proof (cases xs)
    case Nil
    then have "str_join sep ls = [] @ l @ concat (map (\<lambda>m. sep @ m) ys)"
      by (simp add: ls str_join_Cons)
    then show ?thesis by blast
  next
    case (Cons x xs')
    then have "str_join sep ls =
        (x @ concat (map (\<lambda>m. sep @ m) xs') @ sep) @ l @ concat (map (\<lambda>m. sep @ m) ys)"
      by (simp add: ls str_join_Cons)
    then show ?thesis by blast
  qed
qed

lemma report_contains_line: "l \<in> set (report_lines rt s) \<Longrightarrow> \<exists>u v. report rt s = u @ l @ v"
  unfolding report_def by (rule str_join_contains)

lemma py_str_PInt: "py_str rt (PInt n) = str_of rt (PInt n)"
  by (simp add: py_str_def)

text \<open>
  Claim C8. The text of the report is fixed by the state, line after line and joined by
  newlines: the title; the study question; the variable and its nature; the heading of
  the data and one line \<open>- category : count\<close> for each pair of the two lists, in their
  order; the chosen step and top, and the justification; the checklist with its seven
  items in the order title, x, y, bars, scale, source, legend, each ending in \<open>OK\<close> or
  in the needs-review text; the priority improvement; the final reflection; and the
  reminder that the student draws the chart. Each of these lines occurs in the text.
\<close>

theorem report_text:
  "(report rt s =
     ustr ''# Rapport d'auto-contr'' @ [244] @ ustr ''le '' @ [8212] @
       ustr '' Diagramme en barres'' @ [10] @
     [10] @
     ustr ''Question d'' @ [39, 233] @ ustr ''tude : '' @
       (case goal s of None \<Rightarrow> ustr ''None'' | Some g \<Rightarrow> g) @ [10] @
     ustr ''Variable : '' @ (case variable s of None \<Rightarrow> ustr ''None'' | Some x \<Rightarrow> x) @
       ustr ''  '' @ [183] @ ustr ''  Nature : '' @
       (case var_type s of None \<Rightarrow> ustr ''None'' | Some t \<Rightarrow> t) @ [10] @
     [10] @
     ustr ''Cat'' @ [233] @ ustr ''gories et effectifs :'' @
     concat (map (\<lambda>cv. [10] @ ustr ''- '' @ fst cv @ ustr '' : '' @
                    (case snd cv of PStr x \<Rightarrow> x | _ \<Rightarrow> str_of rt (snd cv)))
               (zip (categories s) (counts s))) @ [10] @
     [10] @
     [201] @ ustr ''chelle choisie : pas = '' @
       (case scale_choice s (ustr ''step'') of None \<Rightarrow> [] | Some n \<Rightarrow> str_of rt (PInt n)) @
       ustr '', sommet = '' @
       (case scale_choice s (ustr ''top'') of None \<Rightarrow> [] | Some n \<Rightarrow> str_of rt (PInt n)) @ [10] @
     ustr ''Justification : '' @
       (case scale_justif s of None \<Rightarrow> ustr ''None'' | Some j \<Rightarrow> j) @ [10] @
     [10] @
     ustr ''Checklist :'' @
     concat (map (\<lambda>kl. [10] @ ustr ''- '' @ snd kl @ ustr '' : '' @
                    (if map_of (checklist s) (fst kl) = Some True then ustr ''OK''
                     else [192] @ ustr '' revoir''))
               [(ustr ''title'', ustr ''Titre''), (ustr ''x'', ustr ''Axe X''),
                (ustr ''y'', ustr ''Axe Y''), (ustr ''bars'', ustr ''Barres''),
                (ustr ''scale'', [201] @ ustr ''chelle''), (ustr ''source'', ustr ''Source''),
                (ustr ''legend'', ustr ''L'' @ [233] @ ustr ''gende'')]) @ [10] @
     [10] @
     ustr ''Am'' @ [233] @ ustr ''lioration prioritaire : '' @
       (case improvement s of None \<Rightarrow> ustr ''None'' | Some i \<Rightarrow> i) @ [10] @
     [10] @
     ustr ''R'' @ [233] @ ustr ''flexion finale : '' @
       (case reflection s of None \<Rightarrow> ustr ''None'' | Some r \<Rightarrow> r) @ [10] @
     [10] @
     ustr ''(Rappel : le graphique doit '' @ [234] @ ustr ''tre trac'' @ [233] @
       ustr '' par l'' @ [39, 233] @ ustr ''l'' @ [232] @
       ustr ''ve dans l'outil de son choix.)'')
   \<and> (\<forall>l \<in> set
         [ustr ''Question d'' @ [39, 233] @ ustr ''tude : '' @
            (case goal s of None \<Rightarrow> ustr ''None'' | Some g \<Rightarrow> g),
          ustr ''Variable : '' @ (case variable s of None \<Rightarrow> ustr ''None'' | Some x \<Rightarrow> x) @
            ustr ''  '' @ [183] @ ustr ''  Nature : '' @
            (case var_type s of None \<Rightarrow> ustr ''None'' | Some t \<Rightarrow> t),
          [201] @ ustr ''chelle choisie : pas = '' @
            (case scale_choice s (ustr ''step'') of None \<Rightarrow> [] | Some n \<Rightarrow> str_of rt (PInt n)) @
            ustr '', sommet = '' @
            (case scale_choice s (ustr ''top'') of None \<Rightarrow> [] | Some n \<Rightarrow> str_of rt (PInt n)),
          ustr ''Justification : '' @
            (case scale_justif s of None \<Rightarrow> ustr ''None'' | Some j \<Rightarrow> j),
          ustr ''Am'' @ [233] @ ustr ''lioration prioritaire : '' @
            (case improvement s of None \<Rightarrow> ustr ''None'' | Some i \<Rightarrow> i),
          ustr ''R'' @ [233] @ ustr ''flexion finale : '' @
            (case reflection s of None \<Rightarrow> ustr ''None'' | Some r \<Rightarrow> r),
          ustr ''(Rappel : le graphique doit '' @ [234] @ ustr ''tre trac'' @ [233] @
            ustr '' par l'' @ [39, 233] @ ustr ''l'' @ [232] @
            ustr ''ve dans l'outil de son choix.)''].
         \<exists>u v. report rt s = u @ l @ v)
   \<and> (\<forall>i < min (length (categories s)) (length (counts s)).
         \<exists>u v. report rt s =
           u @ (ustr ''- '' @ categories s ! i @ ustr '' : '' @
                (case counts s ! i of PStr x \<Rightarrow> x | _ \<Rightarrow> str_of rt (counts s ! i))) @ v)
   \<and> (\<forall>kl \<in> set
         [(ustr ''title'', ustr ''Titre''), (ustr ''x'', ustr ''Axe X''),
          (ustr ''y'', ustr ''Axe Y''), (ustr ''bars'', ustr ''Barres''),
          (ustr ''scale'', [201] @ ustr ''chelle''), (ustr ''source'', ustr ''Source''),
          (ustr ''legend'', ustr ''L'' @ [233] @ ustr ''gende'')].
         \<exists>u v. report rt s =
           u @ (ustr ''- '' @ snd kl @ ustr '' : '' @
                (if map_of (checklist s) (fst kl) = Some True then ustr ''OK''
                 else [192] @ ustr '' revoir'')) @ v)"
proof (intro conjI ballI allI impI)
  show "report rt s =
     ustr ''# Rapport d'auto-contr'' @ [244] @ ustr ''le '' @ [8212] @
       ustr '' Diagramme en barres'' @ [10] @
     [10] @
     ustr ''Question d'' @ [39, 233] @ ustr ''tude : '' @
       (case goal s of None \<Rightarrow> ustr ''None'' | Some g \<Rightarrow> g) @ [10] @
     ustr ''Variable : '' @ (case variable s of None \<Rightarrow> ustr ''None'' | Some x \<Rightarrow> x) @
       ustr ''  '' @ [183] @ ustr ''  Nature : '' @
       (case var_type s of None \<Rightarrow> ustr ''None'' | Some t \<Rightarrow> t) @ [10] @
     [10] @
     ustr ''Cat'' @ [233] @ ustr ''gories et effectifs :'' @
     concat (map (\<lambda>cv. [10] @ ustr ''- '' @ fst cv @ ustr '' : '' @
                    (case snd cv of PStr x \<Rightarrow> x | _ \<Rightarrow> str_of rt (snd cv)))
               (zip (categories s) (counts s))) @ [10] @
     [10] @
     [201] @ ustr ''chelle choisie : pas = '' @
       (case scale_choice s (ustr ''step'') of None \<Rightarrow> [] | Some n \<Rightarrow> str_of rt (PInt n)) @
       ustr '', sommet = '' @
       (case scale_choice s (ustr ''top'') of None \<Rightarrow> [] | Some n \<Rightarrow> str_of rt (PInt n)) @ [10] @
     ustr ''Justification : '' @
       (case scale_justif s of None \<Rightarrow> ustr ''None'' | Some j \<Rightarrow> j) @ [10] @
     [10] @
     ustr ''Checklist :'' @
     concat (map (\<lambda>kl. [10] @ ustr ''- '' @ snd kl @ ustr '' : '' @
                    (if map_of (checklist s) (fst kl) = Some True then ustr ''OK''
                     else [192] @ ustr '' revoir''))
               [(ustr ''title'', ustr ''Titre''), (ustr ''x'', ustr ''Axe X''),
                (ustr ''y'', ustr ''Axe Y''), (ustr ''bars'', ustr ''Barres''),
                (ustr ''scale'', [201] @ ustr ''chelle''), (ustr ''source'', ustr ''Source''),
                (ustr ''legend'', ustr ''L'' @ [233] @ ustr ''gende'')]) @ [10] @
     [10] @
     ustr ''Am'' @ [233] @ ustr ''lioration prioritaire : '' @
       (case improvement s of None \<Rightarrow> ustr ''None'' | Some i \<Rightarrow> i) @ [10] @
     [10] @
     ustr ''R'' @ [233] @ ustr ''flexion finale : '' @
       (case reflection s of None \<Rightarrow> ustr ''None'' | Some r \<Rightarrow> r) @ [10] @
     [10] @
     ustr ''(Rappel : le graphique doit '' @ [234] @ ustr ''tre trac'' @ [233] @
       ustr '' par l'' @ [39, 233] @ ustr ''l'' @ [232] @
       ustr ''ve dans l'outil de son choix.)''"
    unfolding report_def report_lines_closed
    by (simp add: str_join_Cons REPORT_TITLE_def REPORT_REMINDER_def CHECKLIST_LABELS_def
        pair_line_def checklist_line_def py_str_def fmt_opt_def fmt_scale_def case_prod_unfold
        comp_def py_str_PInt cong: option.case_cong)
next
  fix l
  assume "l \<in> set
         [ustr ''Question d'' @ [39, 233] @ ustr ''tude : '' @
            (case goal s of None \<Rightarrow> ustr ''None'' | Some g \<Rightarrow> g),
          ustr ''Variable : '' @ (case variable s of None \<Rightarrow> ustr ''None'' | Some x \<Rightarrow> x) @
            ustr ''  '' @ [183] @ ustr ''  Nature : '' @
            (case var_type s of None \<Rightarrow> ustr ''None'' | Some t \<Rightarrow> t),
          [201] @ ustr ''chelle choisie : pas = '' @
            (case scale_choice s (ustr ''step'') of None \<Rightarrow> [] | Some n \<Rightarrow> str_of rt (PInt n)) @
            ustr '', sommet = '' @
            (case scale_choice s (ustr ''top'') of None \<Rightarrow> [] | Some n \<Rightarrow> str_of rt (PInt n)),
          ustr ''Justification : '' @
            (case scale_justif s of None \<Rightarrow> ustr ''None'' | Some j \<Rightarrow> j),
          ustr ''Am'' @ [233] @ ustr ''lioration prioritaire : '' @
            (case improvement s of None \<Rightarrow> ustr ''None'' | Some i \<Rightarrow> i),
          ustr ''R'' @ [233] @ ustr ''flexion finale : '' @
            (case reflection s of None \<Rightarrow> ustr ''None'' | Some r \<Rightarrow> r),
          ustr ''(Rappel : le graphique doit '' @ [234] @ ustr ''tre trac'' @ [233] @
            ustr '' par l'' @ [39, 233] @ ustr ''l'' @ [232] @
            ustr ''ve dans l'outil de son choix.)'']"
  then have "l \<in> set (report_lines rt s)"
    unfolding report_lines_closed fmt_opt_def fmt_scale_def py_str_PInt REPORT_REMINDER_def
    by auto
  then show "\<exists>u v. report rt s = u @ l @ v" by (rule report_contains_line)
next
  fix i assume i: "i < min (length (categories s)) (length (counts s))"
  then have "zip (categories s) (counts s) ! i \<in> set (zip (categories s) (counts s))"
    by (intro nth_mem) simp
  then have "pair_line rt (zip (categories s) (counts s) ! i) \<in> set (report_lines rt s)"
    unfolding report_lines_closed by simp
  moreover have "pair_line rt (zip (categories s) (counts s) ! i) =
      ustr ''- '' @ categories s ! i @ ustr '' : '' @
        (case counts s ! i of PStr x \<Rightarrow> x | _ \<Rightarrow> str_of rt (counts s ! i))"
    using i by (simp add: pair_line_def py_str_def)
  ultimately show "\<exists>u v. report rt s =
           u @ (ustr ''- '' @ categories s ! i @ ustr '' : '' @
                (case counts s ! i of PStr x \<Rightarrow> x | _ \<Rightarrow> str_of rt (counts s ! i))) @ v"
    using report_contains_line by metis
next
  fix kl
  assume "kl \<in> set
         [(ustr ''title'', ustr ''Titre''), (ustr ''x'', ustr ''Axe X''),
          (ustr ''y'', ustr ''Axe Y''), (ustr ''bars'', ustr ''Barres''),
          (ustr ''scale'', [201] @ ustr ''chelle''), (ustr ''source'', ustr ''Source''),
          (ustr ''legend'', ustr ''L'' @ [233] @ ustr ''gende'')]"
  then have "kl \<in> set CHECKLIST_LABELS" by (simp only: CHECKLIST_LABELS_def)
  then have "checklist_line s kl \<in> set (report_lines rt s)"
    unfolding report_lines_closed by simp
  moreover have "checklist_line s kl =
      ustr ''- '' @ snd kl @ ustr '' : '' @
        (if map_of (checklist s) (fst kl) = Some True then ustr ''OK''
         else [192] @ ustr '' revoir'')"
    by (simp add: checklist_line_def case_prod_unfold)
  ultimately show "\<exists>u v. report rt s =
           u @ (ustr ''- '' @ snd kl @ ustr '' : '' @
                (if map_of (checklist s) (fst kl) = Some True then ustr ''OK''
                 else [192] @ ustr '' revoir'')) @ v"
    using report_contains_line by metis
qed

theorem report_text_witness:
  "report ascii_rt
     (new_SessionState\<lparr>goal := Some (ustr ''Q1''), variable := Some (ustr ''Fruit''),
        var_type := Some (ustr ''qualitative''), categories := [ustr ''A'', ustr ''B''],
        counts := [PInt 12, PNone, PInt 7],
        scale_choice := [ustr ''step'' \<mapsto> 5, ustr ''top'' \<mapsto> 40],
        scale_justif := Some (ustr ''ok''),
        checklist := [(ustr ''title'', True), (ustr ''x'', False)],
        improvement := Some (ustr ''axes'')\<rparr>) =
     ustr ''# Rapport d'' @ [39] @ ustr ''auto-contr'' @ [244] @ ustr ''le '' @ [8212] @ ustr '' Diagramme en barres'' @ [10] @
     [10] @
     ustr ''Question d'' @ [39, 233] @ ustr ''tude : Q1'' @ [10] @
     ustr ''Variable : Fruit  '' @ [183] @ ustr ''  Nature : qualitative'' @ [10] @
     [10] @
     ustr ''Cat'' @ [233] @ ustr ''gories et effectifs :'' @ [10] @
     ustr ''- A : 12'' @ [10] @
     ustr ''- B : None'' @ [10] @
     [10] @
     [201] @ ustr ''chelle choisie : pas = 5, sommet = 40'' @ [10] @
     ustr ''Justification : ok'' @ [10] @
     [10] @
     ustr ''Checklist :'' @ [10] @
     ustr ''- Titre : OK'' @ [10] @
     ustr ''- Axe X : '' @ [192] @ ustr '' revoir'' @ [10] @
     ustr ''- Axe Y : '' @ [192] @ ustr '' revoir'' @ [10] @
     ustr ''- Barres : '' @ [192] @ ustr '' revoir'' @ [10] @
     ustr ''- '' @ [201] @ ustr ''chelle : '' @ [192] @ ustr '' revoir'' @ [10] @
     ustr ''- Source : '' @ [192] @ ustr '' revoir'' @ [10] @
     ustr ''- L'' @ [233] @ ustr ''gende : '' @ [192] @ ustr '' revoir'' @ [10] @
     [10] @
     ustr ''Am'' @ [233] @ ustr ''lioration prioritaire : axes'' @ [10] @
     [10] @
     ustr ''R'' @ [233] @ ustr ''flexion finale : None'' @ [10] @
     [10] @
     ustr ''(Rappel : le graphique doit '' @ [234] @ ustr ''tre trac'' @ [233] @ ustr '' par l'' @ [39, 233] @ ustr ''l'' @ [232] @ ustr ''ve dans l'' @ [39] @ ustr ''outil de son choix.)''
   \<and> (\<exists>u v. report ascii_rt
     (new_SessionState\<lparr>goal := Some (ustr ''Q1''), variable := Some (ustr ''Fruit''),
        var_type := Some (ustr ''qualitative''), categories := [ustr ''A'', ustr ''B''],
        counts := [PInt 12, PNone, PInt 7],
        scale_choice := [ustr ''step'' \<mapsto> 5, ustr ''top'' \<mapsto> 40],
        scale_justif := Some (ustr ''ok''),
        checklist := [(ustr ''title'', True), (ustr ''x'', False)],
        improvement := Some (ustr ''axes'')\<rparr>) = u @ ustr ''- B : None'' @ v)"
proof -
  let ?s = "new_SessionState\<lparr>goal := Some (ustr ''Q1''), variable := Some (ustr ''Fruit''),
        var_type := Some (ustr ''qualitative''), categories := [ustr ''A'', ustr ''B''],
        counts := [PInt 12, PNone, PInt 7],
        scale_choice := [ustr ''step'' \<mapsto> 5, ustr ''top'' \<mapsto> 40],
        scale_justif := Some (ustr ''ok''),
        checklist := [(ustr ''title'', True), (ustr ''x'', False)],
        improvement := Some (ustr ''axes'')\<rparr>"
  have d: "dec_digits 12 = ustr ''12''" "dec_digits 5 = ustr ''5''" "dec_digits 40 = ustr ''40''"
    by (simp_all add: dec_digits.simps [of 12] dec_digits.simps [of 40] dec_digits.simps [of 5]
        dec_digits.simps [of 4] dec_digits.simps [of "Suc 0"] ustr_def)
  note t = report_text [of ascii_rt ?s]
  have n: "1 < min (length (categories ?s)) (length (counts ?s))" by simp
  have "report ascii_rt ?s =
     ustr ''# Rapport d'' @ [39] @ ustr ''auto-contr'' @ [244] @ ustr ''le '' @ [8212] @ ustr '' Diagramme en barres'' @ [10] @
     [10] @
     ustr ''Question d'' @ [39, 233] @ ustr ''tude : Q1'' @ [10] @
     ustr ''Variable : Fruit  '' @ [183] @ ustr ''  Nature : qualitative'' @ [10] @
     [10] @
     ustr ''Cat'' @ [233] @ ustr ''gories et effectifs :'' @ [10] @
     ustr ''- A : 12'' @ [10] @
     ustr ''- B : None'' @ [10] @
     [10] @
     [201] @ ustr ''chelle choisie : pas = 5, sommet = 40'' @ [10] @
     ustr ''Justification : ok'' @ [10] @
     [10] @
     ustr ''Checklist :'' @ [10] @
     ustr ''- Titre : OK'' @ [10] @
     ustr ''- Axe X : '' @ [192] @ ustr '' revoir'' @ [10] @
     ustr ''- Axe Y : '' @ [192] @ ustr '' revoir'' @ [10] @
     ustr ''- Barres : '' @ [192] @ ustr '' revoir'' @ [10] @
     ustr ''- '' @ [201] @ ustr ''chelle : '' @ [192] @ ustr '' revoir'' @ [10] @
     ustr ''- Source : '' @ [192] @ ustr '' revoir'' @ [10] @
     ustr ''- L'' @ [233] @ ustr ''gende : '' @ [192] @ ustr '' revoir'' @ [10] @
     [10] @
     ustr ''Am'' @ [233] @ ustr ''lioration prioritaire : axes'' @ [10] @
     [10] @
     ustr ''R'' @ [233] @ ustr ''flexion finale : None'' @ [10] @
     [10] @
     ustr ''(Rappel : le graphique doit '' @ [234] @ ustr ''tre trac'' @ [233] @ ustr '' par l'' @ [39, 233] @ ustr ''l'' @ [232] @ ustr ''ve dans l'' @ [39] @ ustr ''outil de son choix.)''"
    using t [THEN conjunct1]
    by (simp add: new_SessionState_def ascii_rt_def ascii_str_def d ustr_def)
  moreover have "\<exists>u v. report ascii_rt ?s = u @ ustr ''- B : None'' @ v"
    using t [THEN conjunct2, THEN conjunct2, THEN conjunct1, rule_format, OF n]
    by (simp add: ascii_rt_def ascii_str_def ustr_def)
  ultimately show ?thesis by blast
qed

section \<open>Properties of rounding and of the float division\<close>

lemma bit_length_upper: "n < 2 ^ bit_length n"
proof (induction n rule: bit_length.induct)
  case (1 n)
  show ?case
  proof (cases "n = 0")
    case True
    then show ?thesis by (simp add: bit_length.simps)
  next
    case False
    with 1 have "n div 2 < 2 ^ bit_length (n div 2)" by simp
    then have "n < 2 * 2 ^ bit_length (n div 2)" by linarith
    with False show ?thesis by (simp add: bit_length.simps [of n])
  qed
qed

lemma bit_length_lower: "n \<noteq> 0 \<Longrightarrow> 2 ^ (bit_length n - 1) \<le> n"
proof (induction n rule: bit_length.induct)
  case (1 n)
  show ?case
  proof (cases "n div 2 = 0")
    case True
    with 1(2) have "n = 1" by linarith
    then show ?thesis by (simp add: bit_length.simps)
  next
    case False
    with 1 have ih: "2 ^ (bit_length (n div 2) - 1) \<le> n div 2" by simp
    from False have pos: "0 < bit_length (n div 2)" by (simp add: bit_length.simps [of "n div 2"])
    have "bit_length n = Suc (bit_length (n div 2))" using 1(2) by (simp add: bit_length.simps [of n])
    then have "(2::nat) ^ (bit_length n - 1) = 2 * 2 ^ (bit_length (n div 2) - 1)"
      using pos by (cases "bit_length (n div 2)") simp_all
    also have "\<dots> \<le> 2 * (n div 2)" using ih by simp
    also have "\<dots> \<le> n" by simp
    finally show ?thesis .
  qed
qed

lemma bit_length_le: "n < 2 ^ k \<Longrightarrow> bit_length n \<le> k"
proof (rule ccontr)
  assume n: "n < 2 ^ k" and "\<not> bit_length n \<le> k"
  then have k: "k \<le> bit_length n - 1" by simp
  have "n \<noteq> 0"
  proof
    assume "n = 0"
    then have "bit_length n = 0" by (simp add: bit_length.simps)
    with \<open>\<not> bit_length n \<le> k\<close> show False by simp
  qed
  then have "2 ^ (bit_length n - 1) \<le> n" by (rule bit_length_lower)
  moreover have "(2::nat) ^ k \<le> 2 ^ (bit_length n - 1)" using k by (simp add: power_increasing)
  ultimately show False using n by linarith
qed

lemma py_round_le: "q < of_int m + 1 / 2 \<Longrightarrow> py_round q \<le> m"
proof -
  assume a: "q < of_int m + 1 / 2"
  have f: "of_int \<lfloor>q\<rfloor> \<le> q" by simp
  show ?thesis
  proof (cases "q - of_int \<lfloor>q\<rfloor> < 1 / 2")
    case True
    then have "py_round q = \<lfloor>q\<rfloor>" by (simp add: py_round_def Let_def)
    moreover have "(of_int \<lfloor>q\<rfloor> :: rat) < of_int m + 1" using a f by linarith
    then have "(of_int \<lfloor>q\<rfloor> :: rat) < of_int (m + 1)" by simp
    then have "\<lfloor>q\<rfloor> < m + 1" by (simp only: of_int_less_iff)
    ultimately show ?thesis by simp
  next
    case False
    then have "(of_int \<lfloor>q\<rfloor> :: rat) < of_int m" using a by linarith
    then have "\<lfloor>q\<rfloor> < m" by (simp only: of_int_less_iff)
    moreover have "py_round q \<le> \<lfloor>q\<rfloor> + 1" by (simp add: py_round_def Let_def)
    ultimately show ?thesis by linarith
  qed
qed

lemma py_round_ge: "of_int m - 1 / 2 < q \<Longrightarrow> m \<le> py_round q"
proof -
  assume a: "of_int m - 1 / 2 < q"
  have f: "q < of_int \<lfloor>q\<rfloor> + 1" by linarith
  show ?thesis
  proof (cases "q - of_int \<lfloor>q\<rfloor> < 1 / 2")
    case True
    then have "py_round q = \<lfloor>q\<rfloor>" by (simp add: py_round_def Let_def)
    moreover have "(of_int m :: rat) < of_int \<lfloor>q\<rfloor> + 1" using a True by linarith
    then have "(of_int m :: rat) < of_int (\<lfloor>q\<rfloor> + 1)" by simp
    then have "m < \<lfloor>q\<rfloor> + 1" by (simp only: of_int_less_iff)
    ultimately show ?thesis by simp
  next
    case False
    show ?thesis
    proof (cases "1 / 2 < q - of_int \<lfloor>q\<rfloor>")
      case True
      with False have "py_round q = \<lfloor>q\<rfloor> + 1" by (simp add: py_round_def Let_def)
      moreover have "(of_int m :: rat) < of_int (\<lfloor>q\<rfloor> + 2)" using a f by simp
      then have "m < \<lfloor>q\<rfloor> + 2" by (simp only: of_int_less_iff)
      ultimately show ?thesis by simp
    next
      case F2: False
      with False have e: "q = of_int \<lfloor>q\<rfloor> + 1 / 2" by linarith
      have "(of_int m :: rat) < of_int \<lfloor>q\<rfloor> + 1" using a e by linarith
      then have "(of_int m :: rat) < of_int (\<lfloor>q\<rfloor> + 1)" by simp
      then have "m < \<lfloor>q\<rfloor> + 1" by (simp only: of_int_less_iff)
      moreover have "\<lfloor>q\<rfloor> \<le> py_round q" by (simp add: py_round_def Let_def)
      ultimately show ?thesis by linarith
    qed
  qed
qed

lemma py_round_of_int: "py_round (of_int n) = n"
  by (simp add: py_round_def)

lemma round53_small: "\<bar>n\<bar> < 2 ^ 53 \<Longrightarrow> round53 n = n"
proof -
  assume "\<bar>n\<bar> < 2 ^ 53"
  then have "nat \<bar>n\<bar> < 2 ^ 53" by (simp add: nat_less_iff)
  then have "bit_length (nat \<bar>n\<bar>) \<le> 53" by (rule bit_length_le)
  then show ?thesis by (simp add: round53_def)
qed

lemma round53_nonneg: "0 \<le> n \<Longrightarrow> 0 \<le> round53 n"
proof -
  assume n: "0 \<le> n"
  have "0 \<le> py_round (of_int \<bar>n\<bar> / 2 ^ (bit_length (nat \<bar>n\<bar>) - 53))"
    by (rule py_round_ge) (simp add: less_le_trans [of _ 0])
  then show ?thesis using n by (simp add: round53_def Let_def sgn_if)
qed

lemma round53_pos_eq:
  assumes "0 < n" "53 < bit_length (nat n)"
  shows "round53 n = py_round (of_int n / 2 ^ (bit_length (nat n) - 53)) * 2 ^ (bit_length (nat n) - 53)"
  using assms by (simp add: round53_def Let_def)

lemma round53_bound:
  assumes n0: "0 \<le> n" and nb: "n < 2 ^ (k + 53) - 2 ^ (k - 1)" and k: "1 \<le> k"
  shows "round53 n \<le> 2 ^ (k + 53) - 2 ^ k"
proof -
  define l where "l = bit_length (nat n)"
  define P :: int where "P = 2 ^ k"
  have P2: "2 \<le> P" using k unfolding P_def
    by (metis power_increasing one_le_numeral power_one_right)
  have Pk: "(2::int) ^ (k + 53) = P * 2 ^ 53" by (simp add: P_def power_add)
  have up: "n < 2 ^ l"
  proof -
    have "nat n < 2 ^ l" unfolding l_def by (rule bit_length_upper)
    then have "int (nat n) < int (2 ^ l)" by (simp only: of_nat_less_iff)
    then show ?thesis using n0 by simp
  qed
  show ?thesis
  proof (cases "l \<le> 53")
    case True
    then have "round53 n = n" using n0 by (simp add: round53_def l_def)
    moreover have "(2::int) ^ l \<le> 2 ^ 53" using True by (rule power_increasing) simp
    moreover have "(2::int) ^ 53 \<le> P * 2 ^ 53 - P" using P2 by simp
    ultimately show ?thesis using up by (simp only: Pk P_def [symmetric])
  next
    case False
    then have l53: "53 < l" by simp
    define sh where "sh = l - 53"
    have lsh: "l = sh + 53" using l53 by (simp add: sh_def)
    have npos: "0 < n"
    proof (rule ccontr)
      assume "\<not> 0 < n"
      with n0 have "nat n = 0" by simp
      then have "l = 0" by (simp add: l_def bit_length.simps)
      with l53 show False by simp
    qed
    have r: "round53 n = py_round (of_int n / 2 ^ sh) * 2 ^ sh"
      using round53_pos_eq [OF npos] l53 by (simp add: l_def sh_def)
    have shpos: "(0::rat) < 2 ^ sh" by simp
    define q :: rat where "q = of_int n / 2 ^ sh"
    have r: "round53 n = py_round q * 2 ^ sh" using r by (simp add: q_def)
    consider "l \<le> k + 52" | "l = k + 53" | "k + 54 \<le> l" by linarith
    then show ?thesis
    proof cases
      case 1
      have "(of_int n :: rat) < of_int (2 ^ l)" using up by (simp only: of_int_less_iff)
      then have "(of_int n :: rat) < 2 ^ 53 * 2 ^ sh" by (simp add: lsh power_add)
      then have "q < 2 ^ 53" using shpos by (simp add: q_def pos_divide_less_eq)
      then have "q < of_int (2 ^ 53) + 1 / 2" by simp
      then have "py_round q \<le> 2 ^ 53" by (rule py_round_le)
      then have "round53 n \<le> 2 ^ 53 * 2 ^ sh" unfolding r by (rule mult_right_mono) simp
      also have "\<dots> = 2 ^ l" by (simp add: lsh power_add)
      also have "\<dots> \<le> 2 ^ (k + 52)" using 1 by (rule power_increasing) simp
      also have "\<dots> = P * 2 ^ 52" by (simp add: P_def power_add)
      also have "\<dots> \<le> P * 2 ^ 53 - P" using P2 by simp
      finally show ?thesis by (simp only: Pk P_def [symmetric])
    next
      case 2
      then have shk: "sh = k" by (simp add: sh_def)
      obtain j where kj: "k = Suc j" using k by (cases k) simp_all
      have half: "(2::int) ^ (k - 1) * 2 = P" by (simp add: kj P_def)
      have "n * 2 < (P * 2 ^ 53 - 2 ^ (k - 1)) * 2" using nb by (simp add: Pk)
      also have "\<dots> = P * (2 ^ 54 - 1)" using half by (simp add: algebra_simps)
      finally have "of_int (n * 2) < (of_int (P * (2 ^ 54 - 1)) :: rat)"
        by (simp only: of_int_less_iff)
      then have "(of_int n :: rat) * 2 < (2 ^ 54 - 1) * 2 ^ k" by (simp add: P_def mult.commute)
      then have "(of_int n :: rat) < ((2 ^ 54 - 1) / 2) * 2 ^ k" by simp
      then have "q < (2 ^ 54 - 1) / 2"
        by (simp add: q_def shk pos_divide_less_eq)
      then have "q < of_int (2 ^ 53 - 1) + 1 / 2" by simp
      then have "py_round q \<le> 2 ^ 53 - 1" by (rule py_round_le)
      then have "round53 n \<le> (2 ^ 53 - 1) * 2 ^ sh" unfolding r by (rule mult_right_mono) simp
      also have "\<dots> = P * 2 ^ 53 - P" by (simp add: shk P_def algebra_simps)
      finally show ?thesis by (simp only: Pk P_def [symmetric])
    next
      case 3
      have "nat n \<noteq> 0" using npos by simp
      then have "2 ^ (l - 1) \<le> nat n" unfolding l_def by (rule bit_length_lower)
      then have "int (2 ^ (l - 1)) \<le> int (nat n)" by (simp only: of_nat_le_iff)
      then have "2 ^ (l - 1) \<le> n" using n0 by simp
      moreover have "(2::int) ^ (k + 53) \<le> 2 ^ (l - 1)" using 3 by (intro power_increasing) simp_all
      moreover have "(0::int) < 2 ^ (k - 1)" by simp
      ultimately show ?thesis using nb by linarith
    qed
  qed
qed

lemma truediv8_in_range:
  assumes "0 \<le> n" "n < 2 ^ 1027 - 2 ^ 973"
  shows "truediv8 n = Inr (of_int (round53 n) / 8)"
proof -
  have "round53 n \<le> 2 ^ (974 + 53) - 2 ^ 974"
    using assms by (intro round53_bound) simp_all
  then have "round53 n < 2 ^ 1027" by simp
  then have "(of_int (round53 n) :: rat) < of_int (2 ^ 1027)" by (simp only: of_int_less_iff)
  then have "(of_int (round53 n) :: rat) / 8 < 2 ^ 1024" by simp
  moreover have "0 \<le> round53 n" using assms(1) by (rule round53_nonneg)
  then have "(0::rat) \<le> of_int (round53 n) / 8" by simp
  ultimately show ?thesis by (simp add: truediv8_def Let_def abs_if)
qed

lemma bit_length_pow2: "bit_length (2 ^ k) = Suc k"
proof (induction k)
  case 0
  then show ?case by (simp add: bit_length.simps [of "Suc 0"] bit_length.simps [of 0])
next
  case (Suc k)
  have "bit_length (2 ^ Suc k) = Suc (bit_length (2 ^ Suc k div 2))"
    by (subst bit_length.simps) simp
  then show ?case using Suc by simp
qed

lemma round53_pow2:
  assumes "53 \<le> k"
  shows "round53 (2 ^ k) = 2 ^ k"
proof -
  have n: "nat \<bar>2 ^ k :: int\<bar> = 2 ^ k" by (simp add: nat_power_eq)
  have l: "bit_length (nat \<bar>2 ^ k :: int\<bar>) = Suc k" by (simp only: n bit_length_pow2)
  have k: "k = 52 + (k - 52)" using assms by simp
  have "(of_int \<bar>2 ^ k :: int\<bar> :: rat) / 2 ^ (k - 52) = (2 ^ 52 * 2 ^ (k - 52)) / 2 ^ (k - 52)"
    by (subst k) (simp add: power_add)
  also have "\<dots> = of_int (2 ^ 52)" by simp
  finally have q: "py_round (of_int \<bar>2 ^ k :: int\<bar> / 2 ^ (k - 52)) = 2 ^ 52"
    by (simp only: py_round_of_int)
  have s: "Suc k - 53 = k - 52" using assms by simp
  have "round53 (2 ^ k) = 2 ^ 52 * 2 ^ (k - 52)"
    using assms unfolding round53_def l Let_def s q by simp
  also have "\<dots> = 2 ^ k" by (subst (2) k) (simp add: power_add)
  finally show ?thesis .
qed

lemma truediv8_overflow: "truediv8 (2 ^ 1027) = Inl OverflowError"
proof -
  have "round53 (2 ^ 1027) = 2 ^ 1027" by (rule round53_pow2) simp
  then show ?thesis by (simp add: truediv8_def)
qed

section \<open>Properties of the data analysis\<close>

lemma int_all_Inr_iff: "int_all rt xs = Inr ns \<longleftrightarrow> map (py_int rt) xs = map Inr ns"
proof (induction xs arbitrary: ns)
  case Nil
  then show ?case by auto
next
  case (Cons x xs)
  show ?case
  proof (cases "py_int rt x")
    case (Inl e)
    then show ?thesis by (cases ns) auto
  next
    case (Inr n)
    show ?thesis
    proof (cases "int_all rt xs")
      case (Inl e)
      then have "\<And>ms. map (py_int rt) xs \<noteq> map Inr ms" using Cons.IH by auto
      with Inl Inr show ?thesis by (cases ns) auto
    next
      case (Inr ms)
      with \<open>py_int rt x = Inr n\<close> Cons.IH show ?thesis by (cases ns) auto
    qed
  qed
qed

lemma int_all_Inl_iff:
  "(\<exists>e. int_all rt xs = Inl e) \<longleftrightarrow> (\<exists>x \<in> set xs. \<exists>e. py_int rt x = Inl e)"
proof (induction xs)
  case Nil
  then show ?case by simp
next
  case (Cons x xs)
  show ?case
  proof (cases "py_int rt x")
    case (Inl e)
    then show ?thesis by auto
  next
    case (Inr n)
    then show ?thesis using Cons.IH by (cases "int_all rt xs") auto
  qed
qed

lemma int_all_PInt: "int_all rt (map PInt ns) = Inr ns"
  by (induction ns) simp_all

lemma fold_max_Max: "fold max vs v = Max (set (v # vs))"
  by (simp only: Max.set_eq_fold)

lemma analyze_data_not_coerced:
  assumes "int_all rt cnts = Inl e"
    and "dups = (if card (set (map (str_lower rt) (map strip (filter (\<lambda>c. strip c \<noteq> []) cats))))
                     \<noteq> length (map strip (filter (\<lambda>c. strip c \<noteq> []) cats))
                 then [ISSUE_DUPLICATES] else [])"
  shows "analyze_data rt cats cnts =
           Inr (dups @ [ISSUE_NON_INTEGER],
                \<lparr>s_total = 0, s_max = 0, s_suggested_step = 1, s_rounded_top = 10\<rparr>)"
  unfolding analyze_data_def assms Let_def by simp

lemma analyze_data_no_counts:
  assumes "int_all rt cnts = Inr []"
    and "dups = (if card (set (map (str_lower rt) (map strip (filter (\<lambda>c. strip c \<noteq> []) cats))))
                     \<noteq> length (map strip (filter (\<lambda>c. strip c \<noteq> []) cats))
                 then [ISSUE_DUPLICATES] else [])"
  shows "analyze_data rt cats cnts =
           Inr (dups, \<lparr>s_total = 0, s_max = 0, s_suggested_step = 1, s_rounded_top = 10\<rparr>)"
  unfolding analyze_data_def assms Let_def by simp

lemma analyze_data_coerced:
  assumes "int_all rt cnts = Inr (v # vs)"
    and "dups = (if card (set (map (str_lower rt) (map strip (filter (\<lambda>c. strip c \<noteq> []) cats))))
                     \<noteq> length (map strip (filter (\<lambda>c. strip c \<noteq> []) cats))
                 then [ISSUE_DUPLICATES] else [])"
    and "issues = dups @ (if any (\<lambda>x. x < 0) (v # vs) then [ISSUE_NEGATIVE] else [])
                       @ (if sum_list (v # vs) = 0 then [ISSUE_ZERO_SUM] else [])"
    and "m = Max (set (v # vs))"
  shows "analyze_data rt cats cnts =
           (if m = 0
            then Inr (issues, \<lparr>s_total = sum_list (v # vs), s_max = 0, s_suggested_step = 1,
                              s_rounded_top = 10\<rparr>)
            else case truediv8 m of
                   Inl e \<Rightarrow> Inl e
                 | Inr q \<Rightarrow>
                     Inr (issues, \<lparr>s_total = sum_list (v # vs), s_max = m,
                           s_suggested_step = max 1 (py_round q),
                           s_rounded_top = (m div max 1 (py_round q) + 1) * max 1 (py_round q)\<rparr>))"
proof -
  have m: "fold max vs v = m" using assms(4) by (simp only: fold_max_Max)
  show ?thesis
    unfolding analyze_data_def assms(1,2,3) Let_def
    by (simp add: m split: sum.splits)
qed

lemma issues_distinct:
  "ISSUE_NON_INTEGER \<noteq> ISSUE_DUPLICATES" "ISSUE_NON_INTEGER \<noteq> ISSUE_NEGATIVE"
  "ISSUE_NON_INTEGER \<noteq> ISSUE_ZERO_SUM"
  by (simp_all add: ISSUE_NON_INTEGER_def ISSUE_DUPLICATES_def ISSUE_NEGATIVE_def
        ISSUE_ZERO_SUM_def ustr_def)

lemma round53_abs: "\<bar>round53 n\<bar> = round53 \<bar>n\<bar>"
proof (cases "0 \<le> n")
  case True
  then show ?thesis using round53_nonneg [of n] by simp
next
  case False
  then have "round53 n = - round53 \<bar>n\<bar>" by (simp add: round53_def Let_def)
  moreover have "0 \<le> round53 \<bar>n\<bar>" by (rule round53_nonneg) simp
  ultimately show ?thesis by simp
qed

lemma truediv8_returns:
  assumes "\<bar>n\<bar> < 2 ^ 1027 - 2 ^ 973"
  shows "truediv8 n = Inr (of_int (round53 n) / 8)"
proof -
  have "truediv8 \<bar>n\<bar> = Inr (of_int (round53 \<bar>n\<bar>) / 8)"
    using assms by (intro truediv8_in_range) simp_all
  then have "\<not> 2 ^ 1024 \<le> \<bar>(of_int (round53 \<bar>n\<bar>) :: rat) / 8\<bar>"
    by (simp add: truediv8_def Let_def split: if_splits)
  moreover have "\<bar>(of_int (round53 n) :: rat) / 8\<bar> = \<bar>of_int (round53 \<bar>n\<bar>) / 8\<bar>"
    using round53_abs [of n] by (metis abs_divide of_int_abs abs_idempotent)
  ultimately show ?thesis by (simp add: truediv8_def Let_def)
qed

lemma truediv8_error: "truediv8 n = Inl e \<Longrightarrow> e = OverflowError \<and> 2 ^ 1027 - 2 ^ 973 \<le> \<bar>n\<bar>"
proof -
  assume a: "truediv8 n = Inl e"
  then have "e = OverflowError" by (simp add: truediv8_def Let_def split: if_splits)
  moreover have "2 ^ 1027 - 2 ^ 973 \<le> \<bar>n\<bar>"
  proof (rule ccontr)
    assume "\<not> 2 ^ 1027 - 2 ^ 973 \<le> \<bar>n\<bar>"
    then have "\<bar>n\<bar> < 2 ^ 1027 - 2 ^ 973" by simp
    from truediv8_returns [OF this] a show False by simp
  qed
  ultimately show ?thesis by simp
qed

lemma top_above_max:
  fixes m s :: int
  assumes "1 \<le> s"
  shows "m < (m div s + 1) * s"
proof -
  have "m = m div s * s + m mod s" by simp
  moreover have "m mod s < s" using assms by simp
  ultimately have "m < m div s * s + s" by linarith
  then show ?thesis by (simp add: algebra_simps)
qed

lemma analyze_data_scale:
  assumes "analyze_data rt cats cnts = Inr (issues, st)"
  shows "(s_max st = 0 \<and> s_suggested_step st = 1 \<and> s_rounded_top st = 10)
       \<or> (s_max st \<noteq> 0 \<and>
           (\<exists>q. truediv8 (s_max st) = Inr q \<and> s_suggested_step st = max 1 (py_round q) \<and>
                s_rounded_top st =
                  (s_max st div max 1 (py_round q) + 1) * max 1 (py_round q)))"
proof (cases "int_all rt cnts")
  case (Inl e)
  from analyze_data_not_coerced [OF Inl refl, of cats] assms show ?thesis by auto
next
  case (Inr ns)
  show ?thesis
  proof (cases ns)
    case Nil
    with Inr have "int_all rt cnts = Inr []" by simp
    from analyze_data_no_counts [OF this refl, of cats] assms show ?thesis by auto
  next
    case (Cons v vs)
    with Inr have c: "int_all rt cnts = Inr (v # vs)" by simp
    note eq = analyze_data_coerced [OF c refl refl refl, of cats]
    show ?thesis
    proof (cases "Max (set (v # vs)) = 0")
      case True
      with eq assms show ?thesis by auto
    next
      case False
      show ?thesis
      proof (cases "truediv8 (Max (set (v # vs)))")
        case (Inl e)
        with eq assms False show ?thesis by simp
      next
        case (Inr q)
        with eq assms False show ?thesis by auto
      qed
    qed
  qed
qed

text \<open>
  Claim C2. Whenever \<open>analyze_data\<close> returns statistics: if the maximum is positive,
  the suggested step is \<open>max(1, round(max / 8))\<close>, with the division and the rounding
  of Python, the rounded top is \<open>(max // step + 1) * step\<close>, and the rounded top is
  above the maximum; if the maximum is 0 the step is 1 and the top is 10. Below
  \<open>2^53\<close> the division is exact, so the step is the exact quotient rounded half to
  even. A maximum of 37 gives the step 5 and the top 40.
\<close>

theorem analyze_data_scale_suggestion:
  assumes "analyze_data rt cats cnts = Inr (issues, st)"
  shows "(0 < s_max st \<longrightarrow>
            (\<exists>q. truediv8 (s_max st) = Inr q \<and> s_suggested_step st = max 1 (py_round q)) \<and>
            s_rounded_top st = (s_max st div s_suggested_step st + 1) * s_suggested_step st \<and>
            s_max st < s_rounded_top st)
       \<and> (0 < s_max st \<and> s_max st < 2 ^ 53 \<longrightarrow>
            s_suggested_step st = max 1 (py_round (of_int (s_max st) / 8)))
       \<and> (s_max st = 0 \<longrightarrow> s_suggested_step st = 1 \<and> s_rounded_top st = 10)
       \<and> (s_max st = 37 \<longrightarrow> s_suggested_step st = 5 \<and> s_rounded_top st = 40)"
proof -
  note c = analyze_data_scale [OF assms]
  have small: "s_suggested_step st = max 1 (py_round (of_int (s_max st) / 8))"
    if "s_max st \<noteq> 0" "\<bar>s_max st\<bar> < 2 ^ 53"
  proof -
    from c that(1) obtain q where q: "truediv8 (s_max st) = Inr q"
      and s: "s_suggested_step st = max 1 (py_round q)" by auto
    have "round53 (s_max st) = s_max st" using that(2) by (rule round53_small)
    then have "q = of_int (s_max st) / 8" using q
      by (simp add: truediv8_def Let_def split: if_splits)
    with s show ?thesis by simp
  qed
  have 1: "0 < s_max st \<longrightarrow>
            (\<exists>q. truediv8 (s_max st) = Inr q \<and> s_suggested_step st = max 1 (py_round q)) \<and>
            s_rounded_top st = (s_max st div s_suggested_step st + 1) * s_suggested_step st \<and>
            s_max st < s_rounded_top st"
  proof
    assume "0 < s_max st"
    with c obtain q where q: "truediv8 (s_max st) = Inr q"
      and s: "s_suggested_step st = max 1 (py_round q)"
      and t: "s_rounded_top st = (s_max st div max 1 (py_round q) + 1) * max 1 (py_round q)"
      by auto
    have "1 \<le> s_suggested_step st" by (simp add: s)
    then have "s_max st < (s_max st div s_suggested_step st + 1) * s_suggested_step st"
      by (rule top_above_max)
    with q s t show "(\<exists>q. truediv8 (s_max st) = Inr q \<and> s_suggested_step st = max 1 (py_round q)) \<and>
            s_rounded_top st = (s_max st div s_suggested_step st + 1) * s_suggested_step st \<and>
            s_max st < s_rounded_top st"
      by auto
  qed
  have 2: "0 < s_max st \<and> s_max st < 2 ^ 53 \<longrightarrow>
            s_suggested_step st = max 1 (py_round (of_int (s_max st) / 8))"
    using small by simp
  have 3: "s_max st = 0 \<longrightarrow> s_suggested_step st = 1 \<and> s_rounded_top st = 10"
    using c by auto
  have 4: "s_max st = 37 \<longrightarrow> s_suggested_step st = 5 \<and> s_rounded_top st = 40"
  proof
    assume m: "s_max st = 37"
    have "\<lfloor>37 / 8 :: rat\<rfloor> = 4" by (simp add: floor_eq_iff)
    then have r: "py_round (37 / 8) = 5" by (simp add: py_round_def Let_def)
    from m have "s_suggested_step st = max 1 (py_round (of_int (s_max st) / 8))"
      by (intro small) simp_all
    with m r have s: "s_suggested_step st = 5" by simp
    from 1 m have "s_rounded_top st = (s_max st div s_suggested_step st + 1) * s_suggested_step st"
      by simp
    with m s show "s_suggested_step st = 5 \<and> s_rounded_top st = 40" by simp
  qed
  from 1 2 3 4 show ?thesis by blast
qed

lemma truediv8_small: "\<bar>n\<bar> < 2 ^ 53 \<Longrightarrow> truediv8 n = Inr (of_int n / 8)"
proof -
  assume a: "\<bar>n\<bar> < 2 ^ 53"
  then have "\<bar>n\<bar> < 2 ^ 1027 - 2 ^ 973" by simp
  then have "truediv8 n = Inr (of_int (round53 n) / 8)" by (rule truediv8_returns)
  with round53_small [OF a] show ?thesis by simp
qed

lemma two_labels:
  "card (set (map (str_lower ascii_rt)
       (map strip (filter (\<lambda>c. strip c \<noteq> []) [ustr ''A'', ustr ''B''])))) =
   length (map strip (filter (\<lambda>c. strip c \<noteq> []) [ustr ''A'', ustr ''B'']))"
  by (simp add: ascii_rt_def ascii_lower_def strip_def is_space_def ustr_def)

lemma run_37:
  "analyze_data ascii_rt [ustr ''A'', ustr ''B''] [PInt 37, PInt 2] =
     Inr ([], \<lparr>s_total = 39, s_max = 37, s_suggested_step = 5, s_rounded_top = 40\<rparr>)"
proof -
  have c: "int_all ascii_rt [PInt 37, PInt 2] = Inr [37, 2]" by simp
  have t: "truediv8 37 = Inr (37 / 8)" using truediv8_small [of 37] by simp
  have "\<lfloor>37 / 8 :: rat\<rfloor> = 4" by (simp add: floor_eq_iff)
  then have r: "py_round (37 / 8) = 5" by (simp add: py_round_def Let_def)
  show ?thesis
    unfolding analyze_data_coerced [OF c refl refl refl] two_labels by (simp add: t r)
qed

lemma run_truncated:
  "analyze_data ascii_rt [ustr ''A'', ustr ''B''] [PFloat (5 / 2), PInt 3] =
     Inr ([], \<lparr>s_total = 5, s_max = 3, s_suggested_step = 1, s_rounded_top = 4\<rparr>)"
proof -
  have c: "int_all ascii_rt [PFloat (5 / 2), PInt 3] = Inr [2, 3]"
    by (simp add: trunc_def floor_eq_iff)
  have t: "truediv8 3 = Inr (3 / 8)" using truediv8_small [of 3] by simp
  have "\<lfloor>3 / 8 :: rat\<rfloor> = 0" by (simp add: floor_eq_iff)
  then have r: "py_round (3 / 8) = 0" by (simp add: py_round_def Let_def)
  show ?thesis
    unfolding analyze_data_coerced [OF c refl refl refl] two_labels by (simp add: t r)
qed

lemma run_empty:
  "analyze_data ascii_rt [] [] =
     Inr ([], \<lparr>s_total = 0, s_max = 0, s_suggested_step = 1, s_rounded_top = 10\<rparr>)"
  by (rule analyze_data_no_counts) simp_all

theorem analyze_data_scale_suggestion_witness:
  "analyze_data ascii_rt [ustr ''A'', ustr ''B''] [PInt 37, PInt 2] =
     Inr ([], \<lparr>s_total = 39, s_max = 37, s_suggested_step = 5, s_rounded_top = 40\<rparr>)
   \<and> s_max \<lparr>s_total = 39, s_max = 37, s_suggested_step = 5, s_rounded_top = 40\<rparr>
       < s_rounded_top \<lparr>s_total = 39, s_max = 37, s_suggested_step = 5, s_rounded_top = 40\<rparr>
   \<and> analyze_data ascii_rt [] [] =
     Inr ([], \<lparr>s_total = 0, s_max = 0, s_suggested_step = 1, s_rounded_top = 10\<rparr>)"
proof -
  note e = run_37
  note z = run_empty
  from analyze_data_scale_suggestion [OF e] analyze_data_scale_suggestion [OF z] e z
  show ?thesis by simp
qed

lemma analyze_data_raises:
  assumes "int_all rt cnts = Inr (v # vs)" "Max (set (v # vs)) = m" "m \<noteq> 0" "truediv8 m = Inl e"
  shows "analyze_data rt cats cnts = Inl e"
  using analyze_data_coerced [OF assms(1) refl refl assms(2) [symmetric], of cats] assms(3,4)
  by simp

text \<open>
  Claim C1 fails as it is stated: the single count \<open>2^1027\<close> is a non-negative integer
  with a positive sum and the single label has no duplicate, yet \<open>analyze_data\<close>
  returns nothing, because \<open>maxv / 8\<close> raises \<open>OverflowError\<close>.
\<close>

theorem analyze_data_overflow_counterexample:
  "analyze_data ascii_rt [ustr ''A''] [PInt (2 ^ 1027)] = Inl OverflowError"
proof -
  have c: "int_all ascii_rt [PInt (2 ^ 1027)] = Inr [2 ^ 1027]" by simp
  have m: "Max (set [2 ^ 1027 :: int]) = 2 ^ 1027" by simp
  have z: "(2 ^ 1027 :: int) \<noteq> 0" by simp
  show ?thesis using c m z truediv8_overflow by (rule analyze_data_raises)
qed

text \<open>
  Claim C1, amended. If every count is an integer that is non-negative and below
  \<open>2^1027 - 2^973\<close> (the first integer whose eighth rounds beyond the largest
  float), the sum of the counts is positive, and the labels that are left after
  trimming and dropping the empty ones are pairwise different once lowercased, then
  \<open>analyze_data\<close> returns an empty list of issues, with the sum and the maximum of
  the counts in the statistics.
\<close>

theorem analyze_data_no_issues:
  assumes "\<forall>n \<in> set ns. 0 \<le> n \<and> n < 2 ^ 1027 - 2 ^ 973"
    and "0 < sum_list ns"
    and "distinct (map (str_lower rt) (map strip (filter (\<lambda>c. strip c \<noteq> []) cats)))"
  shows "\<exists>st. analyze_data rt cats (map PInt ns) = Inr ([], st) \<and>
              s_total st = sum_list ns \<and> s_max st = Max (set ns)"
proof -
  from assms(2) obtain v vs where ns: "ns = v # vs" by (cases ns) auto
  have c: "int_all rt (map PInt ns) = Inr (v # vs)" unfolding ns [symmetric] by (rule int_all_PInt)
  define m where "m = Max (set (v # vs))"
  have "m \<in> set (v # vs)" unfolding m_def by (rule Max_in) simp_all
  with assms(1) ns have m0: "0 \<le> m" and mb: "m < 2 ^ 1027 - 2 ^ 973" by auto
  have d: "card (set (map (str_lower rt) (map strip (filter (\<lambda>c. strip c \<noteq> []) cats))))
           = length (map strip (filter (\<lambda>c. strip c \<noteq> []) cats))"
    using distinct_card [OF assms(3)] by simp
  have neg: "\<not> any (\<lambda>x. x < 0) (v # vs)" using assms(1) ns by (auto simp: any_iff)
  have z: "sum_list (v # vs) \<noteq> 0" using assms(2) ns by simp
  have t: "truediv8 m = Inr (of_int (round53 m) / 8)" using m0 mb by (rule truediv8_in_range)
  note eq = analyze_data_coerced [OF c refl refl m_def, of cats]
  show ?thesis
  proof (cases "m = 0")
    case True
    with eq d neg z show ?thesis by (simp add: ns m_def)
  next
    case False
    with eq d neg z t show ?thesis by (simp add: ns m_def)
  qed
qed

theorem analyze_data_no_issues_witness:
  "\<exists>st. analyze_data ascii_rt [ustr ''A'', ustr '' b ''] (map PInt [37, 2]) = Inr ([], st) \<and>
        s_total st = 39 \<and> s_max st = 37"
proof -
  have 1: "\<forall>n \<in> set [37, 2 :: int]. 0 \<le> n \<and> n < 2 ^ 1027 - 2 ^ 973" by simp
  have 2: "0 < sum_list [37, 2 :: int]" by simp
  have 3: "distinct (map (str_lower ascii_rt)
             (map strip (filter (\<lambda>c. strip c \<noteq> []) [ustr ''A'', ustr '' b ''])))"
    by (simp add: ascii_rt_def ascii_lower_def strip_def is_space_def ustr_def)
  from analyze_data_no_issues [OF 1 2 3] show ?thesis by simp
qed

text \<open>
  Claim C5. If \<open>int\<close> raises on at least one element of \<open>counts\<close>, then
  \<open>analyze_data\<close> raises nothing: it returns, its issues contain the non-integer
  message, and its statistics are total 0, max 0, suggested step 1, rounded top 10.
\<close>

theorem analyze_data_non_integer:
  assumes "\<exists>x \<in> set cnts. \<exists>e. py_int rt x = Inl e"
  shows "\<exists>issues. analyze_data rt cats cnts =
           Inr (issues, \<lparr>s_total = 0, s_max = 0, s_suggested_step = 1, s_rounded_top = 10\<rparr>)
         \<and> ISSUE_NON_INTEGER \<in> set issues"
proof -
  from assms obtain e where "int_all rt cnts = Inl e" using int_all_Inl_iff [of rt cnts] by blast
  from analyze_data_not_coerced [OF this refl, of cats] show ?thesis by simp
qed

theorem analyze_data_non_integer_witness:
  "\<exists>issues. analyze_data ascii_rt [ustr ''A'', ustr ''B''] [PStr (ustr ''x''), PInt 2] =
           Inr (issues, \<lparr>s_total = 0, s_max = 0, s_suggested_step = 1, s_rounded_top = 10\<rparr>)
         \<and> ISSUE_NON_INTEGER \<in> set issues"
proof -
  have "py_int ascii_rt (PStr (ustr ''x'')) = Inl ValueError"
    by (simp add: ascii_rt_def ascii_int_def is_c_space_def is_digit_def ustr_def)
  then have "\<exists>x \<in> set [PStr (ustr ''x''), PInt 2]. \<exists>e. py_int ascii_rt x = Inl e" by simp
  then show ?thesis by (rule analyze_data_non_integer)
qed

text \<open>
  Claim C10. If \<open>int\<close> accepts every element of \<open>counts\<close>, with \<open>ns\<close> the integers it
  returns (a float is cut towards zero: 2.5 gives 2, -2.5 gives -2), then every result
  of \<open>analyze_data\<close> is free of the non-integer message and carries the sum and the
  maximum of \<open>ns\<close>; the one way not to return is the \<open>OverflowError\<close> of \<open>maxv / 8\<close>,
  for a maximum of magnitude \<open>2^1027 - 2^973\<close> or more. For any \<open>counts\<close>, a result
  contains the non-integer message exactly when \<open>int\<close> raises on some element.
\<close>

theorem analyze_data_coercible:
  "(map (py_int rt) cnts = map Inr ns \<longrightarrow>
      (\<forall>issues st. analyze_data rt cats cnts = Inr (issues, st) \<longrightarrow>
         ISSUE_NON_INTEGER \<notin> set issues \<and> s_total st = sum_list ns \<and>
         s_max st = (if ns = [] then 0 else Max (set ns)))
      \<and> (\<forall>e. analyze_data rt cats cnts = Inl e \<longrightarrow>
           e = OverflowError \<and> ns \<noteq> [] \<and> 2 ^ 1027 - 2 ^ 973 \<le> \<bar>Max (set ns)\<bar>))
   \<and> (\<forall>issues st. analyze_data rt cats cnts = Inr (issues, st) \<longrightarrow>
         (ISSUE_NON_INTEGER \<in> set issues \<longleftrightarrow> (\<exists>x \<in> set cnts. \<exists>e. py_int rt x = Inl e)))
   \<and> py_int rt (PFloat (5 / 2)) = Inr 2 \<and> py_int rt (PFloat (- 5 / 2)) = Inr (- 2)"
proof -
  have ok: "ISSUE_NON_INTEGER \<notin> set issues \<and> s_total st = sum_list ns \<and>
         s_max st = (if ns = [] then 0 else Max (set ns))"
    if c: "int_all rt cnts = Inr ns" and a: "analyze_data rt cats cnts = Inr (issues, st)"
    for ns issues st
  proof (cases ns)
    case Nil
    with c have "int_all rt cnts = Inr []" by simp
    from analyze_data_no_counts [OF this refl, of cats] a Nil show ?thesis
      by (auto simp: issues_distinct)
  next
    case (Cons v vs)
    with c have c': "int_all rt cnts = Inr (v # vs)" by simp
    note eq = analyze_data_coerced [OF c' refl refl refl, of cats]
    show ?thesis
    proof (cases "Max (set (v # vs)) = 0")
      case True
      with eq a Cons show ?thesis by (auto simp: issues_distinct)
    next
      case False
      show ?thesis
      proof (cases "truediv8 (Max (set (v # vs)))")
        case (Inl e)
        with eq a False show ?thesis by simp
      next
        case (Inr q)
        with eq a False Cons show ?thesis by (auto simp: issues_distinct)
      qed
    qed
  qed
  have err: "e = OverflowError \<and> ns \<noteq> [] \<and> 2 ^ 1027 - 2 ^ 973 \<le> \<bar>Max (set ns)\<bar>"
    if c: "int_all rt cnts = Inr ns" and a: "analyze_data rt cats cnts = Inl e" for ns e
  proof (cases ns)
    case Nil
    with c have "int_all rt cnts = Inr []" by simp
    from analyze_data_no_counts [OF this refl, of cats] a show ?thesis by simp
  next
    case (Cons v vs)
    with c have c': "int_all rt cnts = Inr (v # vs)" by simp
    note eq = analyze_data_coerced [OF c' refl refl refl, of cats]
    show ?thesis
    proof (cases "Max (set (v # vs)) = 0")
      case True
      with eq a show ?thesis by simp
    next
      case False
      show ?thesis
      proof (cases "truediv8 (Max (set (v # vs)))")
        case (Inl e')
        with eq a False have "e' = e" by simp
        with truediv8_error [OF Inl] Cons show ?thesis by simp
      next
        case (Inr q)
        with eq a False show ?thesis by simp
      qed
    qed
  qed
  have 1: "map (py_int rt) cnts = map Inr ns \<longrightarrow>
      (\<forall>issues st. analyze_data rt cats cnts = Inr (issues, st) \<longrightarrow>
         ISSUE_NON_INTEGER \<notin> set issues \<and> s_total st = sum_list ns \<and>
         s_max st = (if ns = [] then 0 else Max (set ns)))
      \<and> (\<forall>e. analyze_data rt cats cnts = Inl e \<longrightarrow>
           e = OverflowError \<and> ns \<noteq> [] \<and> 2 ^ 1027 - 2 ^ 973 \<le> \<bar>Max (set ns)\<bar>)"
    using ok err by (simp only: int_all_Inr_iff [symmetric]) blast
  have 2: "\<forall>issues st. analyze_data rt cats cnts = Inr (issues, st) \<longrightarrow>
         (ISSUE_NON_INTEGER \<in> set issues \<longleftrightarrow> (\<exists>x \<in> set cnts. \<exists>e. py_int rt x = Inl e))"
  proof (intro allI impI)
    fix issues st assume a: "analyze_data rt cats cnts = Inr (issues, st)"
    show "ISSUE_NON_INTEGER \<in> set issues \<longleftrightarrow> (\<exists>x \<in> set cnts. \<exists>e. py_int rt x = Inl e)"
    proof (cases "int_all rt cnts")
      case (Inl e)
      then have "\<exists>x \<in> set cnts. \<exists>e. py_int rt x = Inl e" using int_all_Inl_iff [of rt cnts] by blast
      moreover from analyze_data_not_coerced [OF Inl refl, of cats] a
      have "ISSUE_NON_INTEGER \<in> set issues" by auto
      ultimately show ?thesis by simp
    next
      case (Inr ms)
      then have "\<not> (\<exists>x \<in> set cnts. \<exists>e. py_int rt x = Inl e)"
        using int_all_Inl_iff [of rt cnts] by simp
      moreover from ok [OF Inr a] have "ISSUE_NON_INTEGER \<notin> set issues" by simp
      ultimately show ?thesis by simp
    qed
  qed
  have 3: "py_int rt (PFloat (5 / 2)) = Inr 2" "py_int rt (PFloat (- 5 / 2)) = Inr (- 2)"
    by (simp_all add: trunc_def floor_eq_iff)
  from 1 2 3 show ?thesis by blast
qed

theorem analyze_data_coercible_witness:
  "analyze_data ascii_rt [ustr ''A'', ustr ''B''] [PFloat (5 / 2), PInt 3] =
     Inr ([], \<lparr>s_total = 5, s_max = 3, s_suggested_step = 1, s_rounded_top = 4\<rparr>)
   \<and> ISSUE_NON_INTEGER \<notin> set ([] :: pystr list)
   \<and> s_total \<lparr>s_total = 5, s_max = 3, s_suggested_step = 1, s_rounded_top = 4\<rparr> = sum_list [2, 3]
   \<and> s_max \<lparr>s_total = 5, s_max = 3, s_suggested_step = 1, s_rounded_top = 4\<rparr> = Max (set [2, 3])"
proof -
  have m: "map (py_int ascii_rt) [PFloat (5 / 2), PInt 3] = map Inr [2, 3]"
    by (simp add: trunc_def floor_eq_iff)
  note a = run_truncated
  note t = analyze_data_coercible [of ascii_rt "[PFloat (5 / 2), PInt 3]" "[2, 3]"
      "[ustr ''A'', ustr ''B'']", THEN conjunct1, rule_format, OF m, THEN conjunct1, rule_format, OF a]
  from t a show ?thesis by simp
qed

end
